theory Spec2Isabelle
  imports Main "HOL-Library.Word" "HOL-Library.Sublist"
begin

section \<open>Values shared by the whole program\<close>

text \<open>
  The program is the single file \<^verbatim>\<open>genesis.py\<close>. A Python \<^verbatim>\<open>str\<close> is modelled as a HOL
  \<^typ>\<open>string\<close> with one \<^typ>\<open>char\<close> per code point (code points below 256), a
  \<^verbatim>\<open>bytes\<close> value as a list of 8-bit words, a Python \<^verbatim>\<open>int\<close> as \<^typ>\<open>int\<close>.
  Every exception the program can meet is a value of \<open>error\<close>, and a function that can
  raise returns \<open>error + 'a\<close> with \<open>Inl\<close> for the exception.
\<close>

type_synonym byte = "8 word"
type_synonym bytes = "byte list"

datatype error =
    BinasciiError
  | UsageError string
  | FatalExit string
  | LookupFailed string
  | SolverException string
  | UnboundLocalError string
  | IndexError
  | ValueError string
  | OtherError string

text \<open>
  Modelled from the spec: the module \<^verbatim>\<open>logger\<close> with \<^verbatim>\<open>warn\<close>, \<^verbatim>\<open>fatal\<close> and \<^verbatim>\<open>verb\<close>
  is not in the file. \<^verbatim>\<open>warn\<close> reports its message and returns: the event \<open>Warn\<close>.
  \<^verbatim>\<open>fatal\<close> reports its message and ends the program: the exception \<open>FatalExit\<close> (the
  errors it reports are "fatal, checked before spawning anything"). \<^verbatim>\<open>verb\<close> prints its
  message when the program is verbose and changes nothing else; its calls are left out.

  The events are what the program does to the outside, in order.
\<close>

datatype event =
    Warn string
  | Print string
  | SelectCoreParams string
  | NewTrompSolver
  | NewSilentarmySolver
  | NewProactorEventLoop
  | GetEventLoop
  | SolverRun
  | LoopClose

subsection \<open>Decimal rendering of integers: the \<^verbatim>\<open>{:d}\<close> of \<^verbatim>\<open>str.format\<close>\<close>

definition digit_char :: "nat \<Rightarrow> char" where
  "digit_char d = ''0123456789'' ! d"

function digits10 :: "nat \<Rightarrow> string" where
  "digits10 n = (if n < 10 then [digit_char n] else digits10 (n div 10) @ [digit_char (n mod 10)])"
  by pat_completeness auto
termination
  by (relation "measure id") auto

declare digits10.simps [simp del]

definition str_int :: "int \<Rightarrow> string" where
  "str_int i = (if i < 0 then CHR ''-'' # digits10 (nat (- i)) else digits10 (nat i))"

subsection \<open>Hexadecimal: \<^verbatim>\<open>binascii.unhexlify\<close>, and \<^verbatim>\<open>x\<close>, \<^verbatim>\<open>lx\<close>, \<^verbatim>\<open>b2x\<close>, \<^verbatim>\<open>b2lx\<close> of bitcoin.core\<close>

definition hex_val :: "char \<Rightarrow> nat option" where
  "hex_val c =
     (let n = (of_char c :: nat) in
      if 48 \<le> n \<and> n \<le> 57 then Some (n - 48)
      else if 97 \<le> n \<and> n \<le> 102 then Some (n - 87)
      else if 65 \<le> n \<and> n \<le> 70 then Some (n - 55)
      else None)"

text \<open>\<^verbatim>\<open>unhexlify\<close> raises \<^verbatim>\<open>binascii.Error\<close> on an odd number of digits and on a
  character that is no hexadecimal digit.\<close>

fun unhexlify :: "string \<Rightarrow> error + bytes" where
  "unhexlify [] = Inr []"
| "unhexlify [c] = Inl BinasciiError"
| "unhexlify (a # b # cs) =
     (case (hex_val a, hex_val b) of
        (Some h, Some l) \<Rightarrow>
          (case unhexlify cs of
             Inl e \<Rightarrow> Inl e
           | Inr bs \<Rightarrow> Inr (of_nat (16 * h + l) # bs))
      | _ \<Rightarrow> Inl BinasciiError)"

text \<open>\<^verbatim>\<open>x(h) = unhexlify(h)\<close>; \<^verbatim>\<open>lx(h) = unhexlify(h)[::-1]\<close>.\<close>

definition x :: "string \<Rightarrow> error + bytes" where
  "x h = unhexlify h"

definition lx :: "string \<Rightarrow> error + bytes" where
  "lx h = (case unhexlify h of Inl e \<Rightarrow> Inl e | Inr bs \<Rightarrow> Inr (rev bs))"

definition hex_char :: "nat \<Rightarrow> char" where
  "hex_char d = ''0123456789abcdef'' ! d"

fun hexlify :: "bytes \<Rightarrow> string" where
  "hexlify [] = []"
| "hexlify (b # bs) = hex_char (unat b div 16) # hex_char (unat b mod 16) # hexlify bs"

definition b2x :: "bytes \<Rightarrow> string" where
  "b2x b = hexlify b"

definition b2lx :: "bytes \<Rightarrow> string" where
  "b2lx b = hexlify (rev b)"

section \<open>\<^verbatim>\<open>parse_args\<close>: the nonce parser \<^verbatim>\<open>lbytes32\<close>\<close>

text \<open>
  \<^verbatim>\<open>
  def lbytes32(s):
      """Converts a hex string into a 32 bytes long byte array, litte endian"""
      if len(s) > 32:
          warn('Nonce can be at most 32 bytes long, is {:d}! Will be truncated'
                  .format(len(s)))
          return lx(s[:64])
      return lx('0'*(64-len(s)) + s)
  \<close>
  The result is paired with the warnings emitted.
\<close>

definition lbytes32 :: "string \<Rightarrow> (error + bytes) \<times> event list" where
  "lbytes32 s =
     (if length s > 32 then
        (lx (take 64 s),
         [Warn (''Nonce can be at most 32 bytes long, is '' @ str_int (int (length s))
                @ ''! Will be truncated'')])
      else (lx (replicate (64 - length s) CHR ''0'' @ s), []))"

section \<open>The collaborators of the header builder\<close>

text \<open>
  \<^verbatim>\<open>genesis.py\<close> calls code that is not part of the file: the block explorer, the
  hashes, the solvers, and built-in functions of Python. They are the fields of a record
  that every function below takes as its first argument. The block explorer and the solvers
  work on the outside world, so they are functions of its state \<open>'w\<close>; the block explorer
  returns the next state.
\<close>

record tx_in =
  scriptSig :: bytes

record tx_out =
  nValue :: int
  scriptPubKey :: bytes

record transaction =
  vin :: "tx_in list"
  vout :: "tx_out list"

record equihash_header =
  nTime :: int
  nBits :: int
  nNonce :: bytes
  hashMerkleRoot :: bytes

datatype solver_obj =
    TrompSolver "string list" equihash_header int bytes int
  | SilentarmySolver "string list" equihash_header int bytes

type_synonym lookup_result = "error + int \<times> string"

text \<open>
  \<^item> \<open>get_latest\<close>: \<^verbatim>\<open>be.get_latest(coin)\<close>, the height and the hash of the latest block;
  \<^item> \<open>blake2s\<close>: the digest \<^verbatim>\<open>blake2s(data).digest()\<close>;
  \<^item> \<open>GetTxid\<close>: \<^verbatim>\<open>tx.GetTxid()\<close>;
  \<^item> \<open>GetHash\<close>: \<^verbatim>\<open>CZBlockHeader.from_EquihashHeader(eh, solution, nonce).GetHash()\<close>;
  \<^item> \<open>solver_run\<close>: \<^verbatim>\<open>loop.run_until_complete(solver.run())\<close>, the solution and the
    nonce, or the exception raised;
  \<^item> \<open>py_int\<close>: Python's \<^verbatim>\<open>int(s, base)\<close>, \<open>None\<close> when it raises \<^verbatim>\<open>ValueError\<close>;
  \<^item> \<open>py_split\<close>: \<^verbatim>\<open>s.split()\<close>;
  \<^item> \<open>search_eq_suffix\<close>: whether \<^verbatim>\<open>re.search(r'eq\w*$', s)\<close> finds a match;
  \<^item> \<open>now\<close>: \<^verbatim>\<open>int(time.time())\<close>;
  \<^item> \<open>platform_win32\<close>: \<^verbatim>\<open>sys.platform == "win32"\<close>.
\<close>

record 'w collaborators =
  get_latest :: "'w \<Rightarrow> string \<Rightarrow> lookup_result \<times> 'w"
  blake2s :: "bytes \<Rightarrow> bytes"
  GetTxid :: "transaction \<Rightarrow> error + bytes"
  GetHash :: "equihash_header \<Rightarrow> bytes \<Rightarrow> bytes \<Rightarrow> error + bytes"
  solver_run :: "'w \<Rightarrow> solver_obj \<Rightarrow> error + bytes \<times> bytes"
  py_int :: "string \<Rightarrow> nat \<Rightarrow> int option"
  py_split :: "string \<Rightarrow> string list"
  search_eq_suffix :: "string \<Rightarrow> bool"
  now :: int
  platform_win32 :: bool

section \<open>\<^verbatim>\<open>build_pszTimestamp\<close>\<close>

subsection \<open>\<^verbatim>\<open>re.findall(r'\{[A-Z]{3}\}', timestamp)\<close>\<close>

definition is_upper :: "char \<Rightarrow> bool" where
  "is_upper c = (65 \<le> (of_char c :: nat) \<and> (of_char c :: nat) \<le> 90)"

text \<open>The pattern matches at the head of a string.\<close>

fun token_at :: "string \<Rightarrow> bool" where
  "token_at (l # a # b # c # r # rest) =
     (l = CHR ''{'' \<and> is_upper a \<and> is_upper b \<and> is_upper c \<and> r = CHR ''}'')"
| "token_at s = False"

text \<open>\<^verbatim>\<open>findall\<close> scans from the left; after a match it goes on behind the match, so the
  matches do not overlap.\<close>

fun findall_tokens :: "string \<Rightarrow> string list" where
  "findall_tokens [] = []"
| "findall_tokens (c # cs) =
     (if token_at (c # cs) then take 5 (c # cs) # findall_tokens (drop 4 cs)
      else findall_tokens cs)"

subsection \<open>\<^verbatim>\<open>str.replace\<close>\<close>

text \<open>Every occurrence of \<open>old\<close>, from the left and without overlap, becomes \<open>new\<close>.\<close>

fun replace_nonempty :: "string \<Rightarrow> string \<Rightarrow> string \<Rightarrow> string" where
  "replace_nonempty [] old new = []"
| "replace_nonempty (c # cs) old new =
     (if prefix old (c # cs) then new @ replace_nonempty (drop (length old - 1) cs) old new
      else c # replace_nonempty cs old new)"

text \<open>Python puts \<open>new\<close> before every character and at the end when \<open>old\<close> is empty.\<close>

definition str_replace :: "string \<Rightarrow> string \<Rightarrow> string \<Rightarrow> string" where
  "str_replace s old new =
     (if old = [] then new @ concat (map (\<lambda>c. c # new) s) else replace_nonempty s old new)"

subsection \<open>\<^verbatim>\<open>str.encode('UTF-8')\<close>\<close>

definition utf8_char :: "char \<Rightarrow> bytes" where
  "utf8_char c =
     (let n = (of_char c :: nat) in
      if n < 128 then [of_nat n] else [of_nat (192 + n div 64), of_nat (128 + n mod 64)])"

definition utf8 :: "string \<Rightarrow> bytes" where
  "utf8 s = concat (map utf8_char s)"

subsection \<open>The function and its loop\<close>

text \<open>
  \<^verbatim>\<open>
  def get_latest_block_str(coin):
      return '{}#{:d} {}'.format(coin, *be.get_latest(coin))
  \<close>
  The answer of the block explorer is the second argument.
\<close>

definition get_latest_block_str :: "string \<Rightarrow> int \<times> string \<Rightarrow> string" where
  "get_latest_block_str coin r = coin @ ''#'' @ str_int (fst r) @ '' '' @ snd r"

type_synonym lookup_log = "(string \<times> lookup_result) list"

text \<open>
  \<^verbatim>\<open>
  for coin in re.findall(r'\{[A-Z]{3}\}', timestamp):
          timestamp = timestamp.replace(coin, get_latest_block_str(coin[1:4]))
  \<close>
  The loop runs over the matches of the template as it was before the loop. It returns the
  substituted template or the exception of the block explorer, the state of the world, and
  the calls of the block explorer with their answers, in order.
\<close>

fun substitute_tokens ::
  "('w \<Rightarrow> string \<Rightarrow> lookup_result \<times> 'w) \<Rightarrow> string list \<Rightarrow> string \<Rightarrow> 'w
     \<Rightarrow> (error + string) \<times> 'w \<times> lookup_log" where
  "substitute_tokens gl [] ts w = (Inr ts, w, [])"
| "substitute_tokens gl (coin # coins) ts w =
     (case gl w (take 3 (drop 1 coin)) of
        (Inl e, w') \<Rightarrow> (Inl e, w', [(take 3 (drop 1 coin), Inl e)])
      | (Inr r, w') \<Rightarrow>
          (case substitute_tokens gl coins
                  (str_replace ts coin (get_latest_block_str (take 3 (drop 1 coin)) r)) w' of
             (res, w'', lg) \<Rightarrow> (res, w'', (take 3 (drop 1 coin), Inr r) # lg)))"

text \<open>
  \<^verbatim>\<open>
  def build_pszTimestamp(coinname, timestamp):
      for coin in re.findall(...): ...
      return coinname + blake2s(timestamp.encode('UTF-8')).hexdigest()
  \<close>
\<close>

definition build_pszTimestamp ::
  "'w collaborators \<Rightarrow> string \<Rightarrow> string \<Rightarrow> 'w \<Rightarrow> (error + string) \<times> 'w \<times> lookup_log" where
  "build_pszTimestamp lib coinname timestamp w =
     (case substitute_tokens (get_latest lib) (findall_tokens timestamp) timestamp w of
        (Inl e, w', lg) \<Rightarrow> (Inl e, w', lg)
      | (Inr ts, w', lg) \<Rightarrow> (Inr (coinname @ hexlify (blake2s lib (utf8 ts))), w', lg))"

section \<open>Scripts: \<^verbatim>\<open>CScript\<close> of bitcoin.core.script\<close>

text \<open>
  The class is part of the library python-bitcoinlib and is modelled after it.
  \<^verbatim>\<open>CScript() + v\<close> does not append \<open>v\<close> as it is. The class coerces the operand first:
  an opcode becomes its byte; an integer from 0 to 16 becomes the opcode \<^verbatim>\<open>OP_0\<close>,
  \<^verbatim>\<open>OP_1\<close> ... \<^verbatim>\<open>OP_16\<close>, the integer -1 \<^verbatim>\<open>OP_1NEGATE\<close>, and any other integer the push
  of its minimal little-endian sign-and-magnitude bytes (\<^verbatim>\<open>bn2vch\<close>); a \<^verbatim>\<open>bytes\<close>
  operand becomes the push of these bytes (\<^verbatim>\<open>encode_op_pushdata\<close>).
\<close>

function le_bytes :: "nat \<Rightarrow> bytes" where
  "le_bytes n = (if n = 0 then [] else of_nat (n mod 256) # le_bytes (n div 256))"
  by pat_completeness auto
termination
  by (relation "measure id") auto

declare le_bytes.simps [simp del]

text \<open>\<^verbatim>\<open>struct.pack\<close> of an unsigned value on \<open>k\<close> bytes, little-endian.\<close>

fun le_fixed :: "nat \<Rightarrow> nat \<Rightarrow> bytes" where
  "le_fixed 0 n = []"
| "le_fixed (Suc k) n = of_nat (n mod 256) # le_fixed k (n div 256)"

text \<open>\<^verbatim>\<open>bn2vch\<close>: the magnitude, least significant byte first; the top bit of the last byte
  is the sign, and a byte is added for it when the magnitude uses that bit.\<close>

definition bn2vch :: "int \<Rightarrow> bytes" where
  "bn2vch v =
     (let m = le_bytes (nat \<bar>v\<bar>) in
      if m = [] then []
      else if last m \<ge> 0x80 then m @ [if v < 0 then 0x80 else 0x00]
      else if v < 0 then butlast m @ [last m + 0x80]
      else m)"

definition encode_op_pushdata :: "bytes \<Rightarrow> error + bytes" where
  "encode_op_pushdata d =
     (if length d < 0x4c then Inr (of_nat (length d) # d)
      else if length d \<le> 0xff then Inr (0x4c # of_nat (length d) # d)
      else if length d \<le> 0xffff then Inr (0x4d # le_fixed 2 (length d) @ d)
      else if length d \<le> 0xffffffff then Inr (0x4e # le_fixed 4 (length d) @ d)
      else Inl (ValueError ''Data too long to encode in a PUSHDATA op''))"

definition encode_op_n :: "int \<Rightarrow> byte" where
  "encode_op_n n = (if n = 0 then 0x00 else of_int (0x51 + n - 1))"

definition OP_1NEGATE :: byte where
  "OP_1NEGATE = 0x4f"

definition OP_CHECKSIG :: byte where
  "OP_CHECKSIG = 0xac"

datatype operand = OpCode byte | IntOperand int | BytesOperand bytes

definition coerce_instance :: "operand \<Rightarrow> error + bytes" where
  "coerce_instance other =
     (case other of
        OpCode b \<Rightarrow> Inr [b]
      | IntOperand n \<Rightarrow>
          (if 0 \<le> n \<and> n \<le> 16 then Inr [encode_op_n n]
           else if n = - 1 then Inr [OP_1NEGATE]
           else encode_op_pushdata (bn2vch n))
      | BytesOperand d \<Rightarrow> encode_op_pushdata d)"

text \<open>\<^verbatim>\<open>CScript.__add__\<close>; the first argument is the script so far, or the exception that
  building it raised.\<close>

definition cscript_add :: "error + bytes \<Rightarrow> operand \<Rightarrow> error + bytes" where
  "cscript_add script other =
     (case script of
        Inl e \<Rightarrow> Inl e
      | Inr s \<Rightarrow> (case coerce_instance other of Inl e \<Rightarrow> Inl e | Inr b \<Rightarrow> Inr (s @ b)))"

definition CScript :: "error + bytes" where
  "CScript = Inr []"

section \<open>\<^verbatim>\<open>build_EquihashInputHeader\<close>\<close>

text \<open>The namespace that \<^verbatim>\<open>parse_args\<close> returns. The fields \<open>chain_arg\<close> and \<open>value_arg\<close>
  are \<^verbatim>\<open>args.chain\<close> and \<^verbatim>\<open>args.value\<close>.\<close>

record args =
  chain_arg :: string
  time :: int
  coinname :: string
  timestamp :: string
  pszTimestamp :: "string option"
  pubkey :: bytes
  bits :: int
  extranonce :: "int option"
  value_arg :: int
  nonce :: bytes
  rounds :: int
  solver :: "string list"
  solver_type :: string
  threads :: int
  verbose :: bool

text \<open>
  \<^verbatim>\<open>
  pszTimestamp = args.pszTimestamp if args.pszTimestamp else \
          build_pszTimestamp(args.coinname, args.timestamp)
  \<close>
  The condition is the truth value of the option: \<^verbatim>\<open>None\<close> and the empty string are false.
\<close>

definition resolve_pszTimestamp ::
  "'w collaborators \<Rightarrow> args \<Rightarrow> 'w \<Rightarrow> (error + string) \<times> 'w \<times> lookup_log" where
  "resolve_pszTimestamp lib a w =
     (case pszTimestamp a of
        None \<Rightarrow> build_pszTimestamp lib (coinname a) (timestamp a) w
      | Some p \<Rightarrow>
          if p \<noteq> [] then (Inr p, w, [])
          else build_pszTimestamp lib (coinname a) (timestamp a) w)"

text \<open>
  \<^verbatim>\<open>extranonce = args.extranonce if args.extranonce else bits\<close>:
  \<^verbatim>\<open>None\<close> and 0 are false.
\<close>

definition resolve_extranonce :: "args \<Rightarrow> int" where
  "resolve_extranonce a =
     (case extranonce a of
        None \<Rightarrow> bits a
      | Some n \<Rightarrow> if n \<noteq> 0 then n else bits a)"

text \<open>\<^verbatim>\<open>scriptSig = CScript() + extranonce + b'\x04' + pszTimestamp.encode('UTF-8')\<close>\<close>

definition build_scriptSig :: "int \<Rightarrow> string \<Rightarrow> error + bytes" where
  "build_scriptSig en psz =
     cscript_add (cscript_add (cscript_add CScript (IntOperand en)) (BytesOperand [0x04]))
       (BytesOperand (utf8 psz))"

text \<open>\<^verbatim>\<open>scriptPubKey = CScript() + pk + OP_CHECKSIG\<close>\<close>

definition build_scriptPubKey :: "bytes \<Rightarrow> error + bytes" where
  "build_scriptPubKey pk = cscript_add (cscript_add CScript (BytesOperand pk)) (OpCode OP_CHECKSIG)"

text \<open>
  \<^verbatim>\<open>
  txin=CMutableTxIn(scriptSig=scriptSig)
  txout = CMutableTxOut(nValue = args.value, scriptPubKey = scriptPubKey)
  tx = CMutableTransaction(vin=[txin], vout=[txout])
  txhash = tx.GetTxid()
  return CEquihashHeader(nTime=args.time, nBits=bits,
      nNonce=args.nonce, hashMerkleRoot=txhash)
  \<close>
\<close>

definition build_EquihashInputHeader ::
  "'w collaborators \<Rightarrow> args \<Rightarrow> 'w \<Rightarrow> (error + equihash_header) \<times> 'w \<times> lookup_log" where
  "build_EquihashInputHeader lib a w =
     (case resolve_pszTimestamp lib a w of
        (Inl e, w', lg) \<Rightarrow> (Inl e, w', lg)
      | (Inr psz, w', lg) \<Rightarrow>
          (case build_scriptSig (resolve_extranonce a) psz of
             Inl e \<Rightarrow> (Inl e, w', lg)
           | Inr ssig \<Rightarrow>
               (case build_scriptPubKey (pubkey a) of
                  Inl e \<Rightarrow> (Inl e, w', lg)
                | Inr spk \<Rightarrow>
                    (case GetTxid lib
                            \<lparr>vin = [\<lparr>scriptSig = ssig\<rparr>],
                             vout = [\<lparr>nValue = value_arg a, scriptPubKey = spk\<rparr>]\<rparr> of
                       Inl e \<Rightarrow> (Inl e, w', lg)
                     | Inr txhash \<Rightarrow>
                         (Inr \<lparr>nTime = time a, nBits = bits a, nNonce = nonce a,
                               hashMerkleRoot = txhash\<rparr>, w', lg)))))"

section \<open>\<^verbatim>\<open>parse_args\<close>\<close>

text \<open>
  The command line is the list of the options given, in their order, each with its value
  (the flag \<^verbatim>\<open>-v\<close> has none, its value is ignored). The argument parser starts from
  the defaults and handles one option after the other: it converts the value with the
  \<^verbatim>\<open>type\<close> of the option, checks it against the \<^verbatim>\<open>choices\<close>, and stores it. A conversion
  that raises \<^verbatim>\<open>ValueError\<close> and a value outside the choices end the program with a
  usage error.
\<close>

datatype dest =
    Chain | Time | Coinname | Timestamp | PszTimestamp | Pubkey | Bits | Extranonce
  | Value | Nonce | Rounds | Solver | SolverType | Threads | Verbose

text \<open>
  \<^verbatim>\<open>
  def smartint(i):
      if i.startswith('0x'):
          return int(i, 16)
      else:
          return int(i, 10)
  \<close>
\<close>

definition smartint :: "'w collaborators \<Rightarrow> string \<Rightarrow> int option" where
  "smartint lib i = (if prefix ''0x'' i then py_int lib i 16 else py_int lib i 10)"

definition usage :: "string \<Rightarrow> event list \<times> (error + 'a)" where
  "usage opt = ([], Inl (UsageError opt))"

fun store :: "'w collaborators \<Rightarrow> dest \<Rightarrow> string \<Rightarrow> args \<Rightarrow> event list \<times> (error + args)" where
  "store lib Chain v a =
     (if v \<in> set [''mainnet'', ''testnet'', ''regtest''] then ([], Inr (a\<lparr>chain_arg := v\<rparr>))
      else usage ''-c/--chainparams'')"
| "store lib Time v a =
     (case py_int lib v 10 of
        None \<Rightarrow> usage ''-t/--time''
      | Some n \<Rightarrow> ([], Inr (a\<lparr>time := n\<rparr>)))"
| "store lib Coinname v a = ([], Inr (a\<lparr>coinname := v\<rparr>))"
| "store lib Timestamp v a = ([], Inr (a\<lparr>timestamp := v\<rparr>))"
| "store lib PszTimestamp v a = ([], Inr (a\<lparr>pszTimestamp := Some v\<rparr>))"
| "store lib Pubkey v a =
     (case x v of
        Inl e \<Rightarrow> usage ''-p/--pubkey''
      | Inr b \<Rightarrow> ([], Inr (a\<lparr>pubkey := b\<rparr>)))"
| "store lib Bits v a =
     (case smartint lib v of
        None \<Rightarrow> usage ''-b/--bits''
      | Some n \<Rightarrow> ([], Inr (a\<lparr>bits := n\<rparr>)))"
| "store lib Extranonce v a =
     (case smartint lib v of
        None \<Rightarrow> usage ''-E/--extra-nonce''
      | Some n \<Rightarrow> ([], Inr (a\<lparr>extranonce := Some n\<rparr>)))"
| "store lib Value v a =
     (case py_int lib v 10 of
        None \<Rightarrow> usage ''-V/--value''
      | Some n \<Rightarrow> ([], Inr (a\<lparr>value_arg := n\<rparr>)))"
| "store lib Nonce v a =
     (case lbytes32 v of
        (Inl e, evs) \<Rightarrow> (evs, Inl (UsageError ''-n/--nonce''))
      | (Inr b, evs) \<Rightarrow> (evs, Inr (a\<lparr>nonce := b\<rparr>)))"
| "store lib Rounds v a =
     (case py_int lib v 10 of
        None \<Rightarrow> usage ''-r/--rounds''
      | Some n \<Rightarrow> ([], Inr (a\<lparr>rounds := n\<rparr>)))"
| "store lib Solver v a = ([], Inr (a\<lparr>solver := py_split lib v\<rparr>))"
| "store lib SolverType v a =
     (if v \<in> set [''tromp'', ''silentarmy''] then ([], Inr (a\<lparr>solver_type := v\<rparr>))
      else usage ''-S/--solver-type'')"
| "store lib Threads v a =
     (case py_int lib v 10 of
        None \<Rightarrow> usage ''-T/--threads''
      | Some n \<Rightarrow> ([], Inr (a\<lparr>threads := n\<rparr>)))"
| "store lib Verbose v a = ([], Inr (a\<lparr>verbose := True\<rparr>))"

fun store_all ::
  "'w collaborators \<Rightarrow> (dest \<times> string) list \<Rightarrow> args \<Rightarrow> event list \<times> (error + args)" where
  "store_all lib [] a = ([], Inr a)"
| "store_all lib ((d, v) # rest) a =
     (case store lib d v a of
        (evs, Inl e) \<Rightarrow> (evs, Inl e)
      | (evs, Inr a') \<Rightarrow>
          (case store_all lib rest a' of (evs', r) \<Rightarrow> (evs @ evs', r)))"

text \<open>The defaults of the fifteen \<^verbatim>\<open>add_argument\<close> calls; the default public key is
  given to the parser as \<^verbatim>\<open>x("04678a...")\<close>.\<close>

definition default_timestamp :: string where
  "default_timestamp = ''The Economist 2016-10-29 Known unknown: Another crypto-currency is born. BTC#436254 0000000000000000044f321997f336d2908cf8c8d6893e88dbf067e2d949487d ETH#2521903 483039a6b6bd8bd05f0584f9a078d075e454925eb71c1f13eaff59b405a721bb DJIA close on 27 Oct 2016: 18,169.68''"

definition default_pubkey_hex :: string where
  "default_pubkey_hex = ''04678afdb0fe5548271967f1a67130b7105cd6a828e03909a67962e0ea1f61deb649f6bc3f4cef38c4f35504e51ec112de5c384df7ba0b8d578a4c702b6bf11d5f''"

definition defaults :: "'w collaborators \<Rightarrow> bytes \<Rightarrow> args" where
  "defaults lib pk =
     \<lparr>chain_arg = ''mainnet'', time = now lib, coinname = ''Zcash'',
      timestamp = default_timestamp, pszTimestamp = None, pubkey = pk,
      bits = 0x1f07ffff, extranonce = None, value_arg = 0, nonce = replicate 32 0x00,
      rounds = 1, solver = py_split lib ''../../equihash/eq14451'', solver_type = ''tromp'',
      threads = 1, verbose = False\<rparr>"

definition argparse ::
  "'w collaborators \<Rightarrow> (dest \<times> string) list \<Rightarrow> event list \<times> (error + args)" where
  "argparse lib argv =
     (case x default_pubkey_hex of
        Inl e \<Rightarrow> ([], Inl e)
      | Inr pk \<Rightarrow> store_all lib argv (defaults lib pk))"

text \<open>
  \<^verbatim>\<open>
  if not args.solver_type:
      if args.solver[0].endswith('sa-solver'):
          args.solver_type = 'silentarmy'
      elif re.search(r'eq\w*$', args.solver[0]):
          args.solver_type = 'tromp'
      else:
          fatal("Couldn't infer solver type from binary name and type not set with -S")
  \<close>
\<close>

definition infer_solver_type :: "'w collaborators \<Rightarrow> args \<Rightarrow> error + args" where
  "infer_solver_type lib a =
     (if solver_type a = [] then
        (case solver a of
           [] \<Rightarrow> Inl IndexError
         | s0 # rest \<Rightarrow>
             if suffix ''sa-solver'' s0 then Inr (a\<lparr>solver_type := ''silentarmy''\<rparr>)
             else if search_eq_suffix lib s0 then Inr (a\<lparr>solver_type := ''tromp''\<rparr>)
             else Inl (FatalExit
               ''Couldn't infer solver type from binary name and type not set with -S''))
      else Inr a)"

text \<open>
  \<^verbatim>\<open>
  if args.solver_type == 'silentarmy' and args.chain == 'regtest':
      fatal("Silentarmy doesn't support regtest parameters N,K=48,5. Get Tromp's equihash solver.")
  \<close>
\<close>

definition check_silentarmy :: "args \<Rightarrow> error + args" where
  "check_silentarmy a =
     (if solver_type a = ''silentarmy'' \<and> chain_arg a = ''regtest'' then
        Inl (FatalExit
          ''Silentarmy doesn't support regtest parameters N,K=48,5. Get Tromp's equihash solver.'')
      else Inr a)"

text \<open>\<^verbatim>\<open>parse_args\<close>: the parser, \<^verbatim>\<open>SelectCoreParams(args.chain)\<close>, the two checks.\<close>

definition parse_args ::
  "'w collaborators \<Rightarrow> (dest \<times> string) list \<Rightarrow> event list \<times> (error + args)" where
  "parse_args lib argv =
     (case argparse lib argv of
        (evs, Inl e) \<Rightarrow> (evs, Inl e)
      | (evs, Inr a) \<Rightarrow>
          (evs @ [SelectCoreParams (chain_arg a)],
           case infer_solver_type lib a of
             Inl e \<Rightarrow> Inl e
           | Inr a' \<Rightarrow> check_silentarmy a'))"

section \<open>\<^verbatim>\<open>main\<close>\<close>

text \<open>
  \<^verbatim>\<open>
  if args.solver_type == 'tromp':
      solver = TrompSolver(args.solver, eh, args.rounds, args.nonce, args.threads)
  elif args.solver_type == 'silentarmy':
      solver = SilentarmySolver(args.solver, eh, args.rounds, args.nonce)
  \<close>
  With any other solver type the name \<^verbatim>\<open>solver\<close> stays unbound: \<open>None\<close>.
\<close>

definition bind_solver :: "args \<Rightarrow> equihash_header \<Rightarrow> solver_obj option" where
  "bind_solver a eh =
     (if solver_type a = ''tromp'' then
        Some (TrompSolver (solver a) eh (rounds a) (nonce a) (threads a))
      else if solver_type a = ''silentarmy'' then
        Some (SilentarmySolver (solver a) eh (rounds a) (nonce a))
      else None)"

definition solver_events :: "solver_obj option \<Rightarrow> event list" where
  "solver_events s =
     (case s of
        None \<Rightarrow> []
      | Some (TrompSolver c eh r n t) \<Rightarrow> [NewTrompSolver]
      | Some (SilentarmySolver c eh r n) \<Rightarrow> [NewSilentarmySolver])"

text \<open>
  \<^verbatim>\<open>
  if sys.platform == "win32":
      loop = asyncio.ProactorEventLoop()
      asyncio.set_event_loop(loop)
  else:
      loop = asyncio.get_event_loop()
  \<close>
\<close>

definition acquire_loop :: "'w collaborators \<Rightarrow> event list" where
  "acquire_loop lib = (if platform_win32 lib then [NewProactorEventLoop] else [GetEventLoop])"

text \<open>
  The body of the \<^verbatim>\<open>try\<close> statement:
  \<^verbatim>\<open>
  solution, nonce = loop.run_until_complete(solver.run())
  h = CZBlockHeader.from_EquihashHeader(eh, solution, nonce)
  print('Solution found!\nHeader Hash: {}\nNonce: {}\n{}'
          .format(b2lx(h.GetHash()), b2lx(nonce), b2x(solution)))
  \<close>
\<close>

definition newline :: string where
  "newline = [CHR 0x0A]"

definition try_body ::
  "'w collaborators \<Rightarrow> 'w \<Rightarrow> equihash_header \<Rightarrow> solver_obj option \<Rightarrow> event list \<times> (error + unit)" where
  "try_body lib w eh s =
     (case s of
        None \<Rightarrow> ([], Inl (UnboundLocalError ''solver''))
      | Some so \<Rightarrow>
          (case solver_run lib w so of
             Inl e \<Rightarrow> ([SolverRun], Inl e)
           | Inr (solution, nonce') \<Rightarrow>
               (case GetHash lib eh solution nonce' of
                  Inl e \<Rightarrow> ([SolverRun], Inl e)
                | Inr h \<Rightarrow>
                    ([SolverRun,
                      Print (''Solution found!'' @ newline @ ''Header Hash: '' @ b2lx h
                             @ newline @ ''Nonce: '' @ b2lx nonce' @ newline @ b2x solution)],
                     Inr ()))))"

text \<open>
  \<^verbatim>\<open>
  except SolverException as e:
      warn('{}\nExiting.'.format(e))
  \<close>
  Any other exception passes through.
\<close>

definition except_SolverException :: "event list \<times> (error + unit) \<Rightarrow> event list \<times> (error + unit)" where
  "except_SolverException c =
     (case c of
        (evs, Inl (SolverException msg)) \<Rightarrow> (evs @ [Warn (msg @ newline @ ''Exiting.'')], Inr ())
      | (evs, r) \<Rightarrow> (evs, r))"

text \<open>\<^verbatim>\<open>finally: loop.close()\<close> runs on every way out of the statement and keeps the
  outcome.\<close>

definition finally_close :: "event list \<times> (error + unit) \<Rightarrow> event list \<times> (error + unit)" where
  "finally_close c = (case c of (evs, r) \<Rightarrow> (evs @ [LoopClose], r))"

definition main ::
  "'w collaborators \<Rightarrow> (dest \<times> string) list \<Rightarrow> 'w \<Rightarrow> event list \<times> (error + unit)" where
  "main lib argv w =
     (case parse_args lib argv of
        (evs, Inl e) \<Rightarrow> (evs, Inl e)
      | (evs, Inr a) \<Rightarrow>
          (case build_EquihashInputHeader lib a w of
             (Inl e, w', lg) \<Rightarrow> (evs, Inl e)
           | (Inr eh, w', lg) \<Rightarrow>
               (case finally_close (except_SolverException
                       (try_body lib w' eh (bind_solver a eh))) of
                  (evs', r) \<Rightarrow>
                    (evs @ solver_events (bind_solver a eh) @ acquire_loop lib @ evs', r))))"

section \<open>Predicates of the statements\<close>

definition hex_string :: "string \<Rightarrow> bool" where
  "hex_string s = list_all (\<lambda>c. hex_val c \<noteq> None) s"

text \<open>A token is a string that the pattern matches as a whole.\<close>

definition is_token :: "string \<Rightarrow> bool" where
  "is_token t = (token_at t \<and> length t = 5)"

text \<open>The pattern matches somewhere in a string.\<close>

fun contains_token :: "string \<Rightarrow> bool" where
  "contains_token [] = False"
| "contains_token (c # cs) = (token_at (c # cs) \<or> contains_token cs)"

text \<open>A text that no occurrence of a token can overlap from the left or begin in: it has no
  opening brace, and no closing brace among its first four characters.\<close>

definition guarded :: "string \<Rightarrow> bool" where
  "guarded r = (CHR ''{'' \<notin> set r \<and> 4 \<le> length r \<and> CHR ''}'' \<notin> set (take 4 r))"

text \<open>
  Modelled from the spec: the module \<^verbatim>\<open>blockexplorer\<close> is not in the file; its interface is
  \<^verbatim>\<open>getLatest(code) -> (height: integer, hash: hex string)\<close>. The predicate asks less
  than that of the block explorer: no hash that it returns contains an opening brace.
\<close>

definition hashes_without_brace :: "('w \<Rightarrow> string \<Rightarrow> lookup_result \<times> 'w) \<Rightarrow> bool" where
  "hashes_without_brace gl = (\<forall>w c r w'. gl w c = (Inr r, w') \<longrightarrow> CHR ''{'' \<notin> set (snd r))"

text \<open>A list of calls is what the block explorer really did from the state \<open>w\<close> to the
  state \<open>w'\<close>: each answer is its answer in the state that the call before left.\<close>

fun lookup_trace ::
  "('w \<Rightarrow> string \<Rightarrow> lookup_result \<times> 'w) \<Rightarrow> 'w \<Rightarrow> lookup_log \<Rightarrow> 'w \<Rightarrow> bool" where
  "lookup_trace gl w [] w' = (w' = w)"
| "lookup_trace gl w (call # lg) w' =
     (fst (gl w (fst call)) = snd call \<and> lookup_trace gl (snd (gl w (fst call))) lg w')"

text \<open>
  The substitution as the specification words it: "for each distinct match, replace every
  occurrence with a string of the form \<^verbatim>\<open><CODE>#<height> <hash>\<close>". One pass over the
  template puts the text \<open>f code\<close> in the place of every token.
\<close>

fun expand_tokens :: "(string \<Rightarrow> string) \<Rightarrow> string \<Rightarrow> string" where
  "expand_tokens f [] = []"
| "expand_tokens f (c # cs) =
     (if token_at (c # cs) then f (take 3 cs) @ expand_tokens f (drop 4 cs)
      else c # expand_tokens f cs)"

text \<open>The text for a code, given the calls made: the block string of the first answer for
  the code when that call succeeded, and the token itself otherwise.\<close>

definition answer_text :: "lookup_log \<Rightarrow> string \<Rightarrow> string" where
  "answer_text lg code =
     (case map_of lg code of
        Some (Inr r) \<Rightarrow> get_latest_block_str code r
      | _ \<Rightarrow> ''{'' @ code @ ''}'')"

text \<open>Every text is the token of its code or a text that no token can overlap; every call
  of a list succeeded with such a text.\<close>

definition texts_guarded :: "(string \<Rightarrow> string) \<Rightarrow> bool" where
  "texts_guarded f = (\<forall>code. f code = ''{'' @ code @ ''}'' \<or> guarded (f code))"

definition answers_guarded :: "lookup_log \<Rightarrow> bool" where
  "answers_guarded lg =
     (\<forall>call \<in> set lg. \<exists>r. snd call = Inr r \<and> guarded (get_latest_block_str (fst call) r))"

text \<open>The events of the solver: its construction and its run, which spawns the external
  process.\<close>

definition solver_event :: "event \<Rightarrow> bool" where
  "solver_event ev = (ev = NewTrompSolver \<or> ev = NewSilentarmySolver \<or> ev = SolverRun)"


section \<open>Collaborators for the examples\<close>

text \<open>
  In the examples the state of the world is the height of the latest block, which grows by
  one with every call of the block explorer. The two hashes are stand-ins that return what
  they are given, the solver finds no solution, and no string is a number.
\<close>

definition demo_lib :: "int collaborators" where
  "demo_lib =
     \<lparr>get_latest = (\<lambda>w c. (Inr (w, ''00ab''), w + 1)),
      blake2s = (\<lambda>b. b),
      GetTxid = (\<lambda>t. Inr (concat (map scriptSig (vin t)))),
      GetHash = (\<lambda>eh s n. Inr (hashMerkleRoot eh)),
      solver_run = (\<lambda>w s. Inl (SolverException ''no solution'')),
      py_int = (\<lambda>s b. None),
      py_split = (\<lambda>s. [s]),
      search_eq_suffix = (\<lambda>s. False),
      now = 1477641360,
      platform_win32 = False\<rparr>"

text \<open>A block explorer, for an example, whose hash is the token of the code it is asked
  for.\<close>

definition token_explorer :: "int \<Rightarrow> string \<Rightarrow> lookup_result \<times> int" where
  "token_explorer w c = (Inr (1, ''{'' @ c @ ''}''), w)"

section \<open>Properties of \<^verbatim>\<open>lbytes32\<close>\<close>

lemma unhexlify_hex_string:
  "hex_string s \<Longrightarrow> even (length s) \<Longrightarrow> \<exists>bs. unhexlify s = Inr bs \<and> 2 * length bs = length s"
proof (induction s rule: induct_list012)
  case 1
  show ?case by simp
next
  case (2 c)
  from "2.prems"(2) show ?case by simp
next
  case (3 a b cs)
  from "3.prems" have cs: "hex_string cs" "even (length cs)"
    by (simp_all add: hex_string_def)
  from "3.IH"(1) [OF cs] obtain bs where bs: "unhexlify cs = Inr bs" "2 * length bs = length cs"
    by blast
  from "3.prems"(1) obtain h l where hl: "hex_val a = Some h" "hex_val b = Some l"
    by (auto simp: hex_string_def)
  have "unhexlify (a # b # cs) = Inr (of_nat (16 * h + l) # bs)"
    by (simp add: hl bs(1))
  with bs(2) show ?case by simp
qed

lemma lx_hex_string:
  "hex_string s \<Longrightarrow> even (length s) \<Longrightarrow> \<exists>bs. lx s = Inr bs \<and> 2 * length bs = length s"
  using unhexlify_hex_string [of s] by (auto simp: lx_def)

lemma hex_val_zero: "hex_val CHR ''0'' = Some 0"
  by (simp add: hex_val_def)

lemma hex_string_zero_pad: "hex_string s \<Longrightarrow> hex_string (replicate n CHR ''0'' @ s)"
  by (induction n) (simp_all add: hex_string_def hex_val_zero)

lemma hex_string_take: "hex_string s \<Longrightarrow> hex_string (take n s)"
  by (auto simp: hex_string_def list_all_iff dest: in_set_takeD)

text \<open>Up to 32 characters the nonce is left-padded to 64 digits and decodes to 32 bytes,
  without a warning.\<close>

lemma lbytes32_padded:
  assumes "hex_string s" and "length s \<le> 32"
  shows "\<exists>bs. lbytes32 s = (Inr bs, []) \<and> length bs = 32
           \<and> lx (replicate (64 - length s) CHR ''0'' @ s) = Inr bs"
proof -
  let ?p = "replicate (64 - length s) CHR ''0'' @ s"
  have len: "length ?p = 64"
    using assms(2) by simp
  have "hex_string ?p"
    using assms(1) by (rule hex_string_zero_pad)
  moreover have "even (length ?p)"
    unfolding len by simp
  ultimately obtain bs where bs: "lx ?p = Inr bs" "2 * length bs = length ?p"
    using lx_hex_string by blast
  from bs(2) have "length bs = 32"
    unfolding len by simp
  moreover have "lbytes32 s = (lx ?p, [])"
    using assms(2) by (simp add: lbytes32_def)
  ultimately show ?thesis
    using bs(1) by simp
qed

text \<open>Beyond 64 characters the first 64 are kept and decode to 32 bytes, with a warning.\<close>

lemma lbytes32_truncated:
  assumes "hex_string s" and "64 < length s"
  shows "\<exists>bs. fst (lbytes32 s) = Inr bs \<and> length bs = 32 \<and> lx (take 64 s) = Inr bs
           \<and> snd (lbytes32 s) =
               [Warn (''Nonce can be at most 32 bytes long, is '' @ str_int (int (length s))
                      @ ''! Will be truncated'')]"
proof -
  have len: "length (take 64 s) = 64"
    using assms(2) by simp
  have "hex_string (take 64 s)"
    using assms(1) by (rule hex_string_take)
  moreover have "even (length (take 64 s))"
    unfolding len by simp
  ultimately obtain bs where bs: "lx (take 64 s) = Inr bs" "2 * length bs = length (take 64 s)"
    using lx_hex_string by blast
  from bs(2) have "length bs = 32"
    unfolding len by simp
  moreover have "fst (lbytes32 s) = lx (take 64 s)"
    using assms(2) by (simp add: lbytes32_def)
  moreover have "snd (lbytes32 s) =
      [Warn (''Nonce can be at most 32 bytes long, is '' @ str_int (int (length s))
             @ ''! Will be truncated'')]"
    using assms(2) by (simp add: lbytes32_def)
  ultimately show ?thesis
    using bs(1) by simp
qed

section \<open>Tokens and their replacement\<close>

lemma is_upper_not_brace: "is_upper c \<Longrightarrow> c \<noteq> CHR ''{'' \<and> c \<noteq> CHR ''}''"
  by (auto simp: is_upper_def)

lemma is_token_iff:
  "is_token t \<longleftrightarrow>
     (\<exists>a b c. t = [CHR ''{'', a, b, c, CHR ''}''] \<and> is_upper a \<and> is_upper b \<and> is_upper c)"
  unfolding is_token_def by (cases t rule: token_at.cases) auto

lemma replace_prefix_back:
  assumes tok: "is_token tok" and rep: "guarded rep"
  shows "CHR ''{'' \<notin> set w \<Longrightarrow> length w \<le> 4 \<Longrightarrow> (w \<noteq> [] \<Longrightarrow> last w = CHR ''}'')
     \<Longrightarrow> prefix w (replace_nonempty s tok rep) \<Longrightarrow> prefix w s"
proof (induction w arbitrary: s)
  case Nil
  show ?case by simp
next
  case (Cons x w)
  show ?case
  proof (cases s)
    case Nil
    with Cons.prems(4) show ?thesis by simp
  next
    case (Cons c cs)
    show ?thesis
    proof (cases "prefix tok (c # cs)")
      case True
      with Cons Cons.prems(4) have "prefix (x # w) (rep @ replace_nonempty (drop 4 cs) tok rep)"
        using tok by (simp add: is_token_def)
      moreover have "length (x # w) \<le> length rep"
        using Cons.prems(2) rep by (simp add: guarded_def)
      ultimately have "prefix (x # w) rep"
        by (metis prefix_length_prefix prefixI)
      then have "x # w = take (length (x # w)) rep"
        by (metis append_eq_conv_conj prefixE)
      then have "set (x # w) \<subseteq> set (take 4 rep)"
        using Cons.prems(2) by (metis set_take_subset_set_take)
      moreover have "last (x # w) = CHR ''}''"
        using Cons.prems(3) by simp
      then have "CHR ''}'' \<in> set (x # w)"
        by (metis last_in_set list.distinct(1))
      ultimately show ?thesis
        using rep by (auto simp: guarded_def)
    next
      case False
      with Cons Cons.prems(4) have xc: "x = c" and pw: "prefix w (replace_nonempty cs tok rep)"
        by simp_all
      have "prefix w cs"
      proof (rule Cons.IH [OF _ _ _ pw])
        show "CHR ''{'' \<notin> set w" using Cons.prems(1) by simp
        show "length w \<le> 4" using Cons.prems(2) by simp
        show "last w = CHR ''}''" if "w \<noteq> []" using Cons.prems(3) that by simp
      qed
      with xc Cons show ?thesis by simp
    qed
  qed
qed

lemma sublist_skip_prefix:
  "hd t \<notin> set r \<Longrightarrow> t \<noteq> [] \<Longrightarrow> sublist t (r @ u) \<Longrightarrow> sublist t u"
proof (induction r)
  case Nil
  then show ?case by simp
next
  case (Cons x r)
  from Cons.prems(1,2) have "\<not> prefix t (x # r @ u)"
    by (cases t) auto
  with Cons.prems(3) have "sublist t (r @ u)"
    by (simp add: sublist_Cons_right)
  with Cons show ?case by simp
qed

lemma replace_skip_plain:
  "is_token tok \<Longrightarrow> CHR ''{'' \<notin> set r \<Longrightarrow>
     replace_nonempty (r @ rest) tok rep = r @ replace_nonempty rest tok rep"
  by (induction r) (auto simp: is_token_iff)

lemma token_replace_hit:
  "is_token tok \<Longrightarrow> prefix tok (c # cs) \<Longrightarrow>
     replace_nonempty (c # cs) tok rep = rep @ replace_nonempty (drop 4 cs) tok rep"
  by (simp add: is_token_def)

lemma token_replace_miss:
  "\<not> prefix tok (c # cs) \<Longrightarrow>
     replace_nonempty (c # cs) tok rep = c # replace_nonempty cs tok rep"
  by simp

lemma token_prefix_split:
  assumes "is_token tok" and "prefix tok (c # cs)"
  shows "c # cs = tok @ drop 4 cs"
proof -
  from assms(2) obtain u where u: "c # cs = tok @ u"
    by (auto simp: prefix_def)
  with assms(1) have "drop 4 cs = u"
    by (auto simp: is_token_iff)
  with u show ?thesis by simp
qed

lemma sublist_drop_Cons:
  assumes "sublist t (drop n cs)"
  shows "sublist t (c # cs)"
proof -
  from assms obtain ps ss where "drop n cs = ps @ t @ ss"
    by (auto simp: sublist_def)
  then have "c # cs = (c # take n cs @ ps) @ t @ ss"
    by (metis append_Cons append_assoc append_take_drop_id)
  then show ?thesis
    unfolding sublist_def by blast
qed

lemma scan_induct [case_names Nil Hit Miss]:
  assumes "P []"
    and "\<And>c cs. prefix tok (c # cs) \<Longrightarrow> P (drop 4 cs) \<Longrightarrow> P (c # cs)"
    and "\<And>c cs. \<not> prefix tok (c # cs) \<Longrightarrow> P cs \<Longrightarrow> P (c # cs)"
  shows "P s"
proof (induction s rule: length_induct)
  case (1 s)
  show ?case
  proof (cases s)
    case Nil
    with assms(1) show ?thesis by simp
  next
    case (Cons c cs)
    have "P (drop 4 cs)" and "P cs"
      using 1 Cons by simp_all
    with assms(2,3) Cons show ?thesis
      by (cases "prefix tok (c # cs)") simp_all
  qed
qed

text \<open>Replacing a token leaves no occurrence of it, and creates no occurrence of another
  token.\<close>

lemma replace_no_token:
  assumes tok: "is_token tok" and t: "is_token t" and rep: "guarded rep"
  shows "t = tok \<or> \<not> sublist t s \<Longrightarrow> \<not> sublist t (replace_nonempty s tok rep)"
proof (induction s rule: scan_induct [where tok = tok])
  case Nil
  from t show ?case by (auto simp: is_token_iff)
next
  case (Hit c cs)
  have "t = tok \<or> \<not> sublist t (drop 4 cs)"
  proof (cases "t = tok")
    case False
    with Hit.prems have "\<not> sublist t (c # cs)" by simp
    then show ?thesis
      using sublist_drop_Cons [of t 4 cs c] by blast
  qed simp
  then have no: "\<not> sublist t (replace_nonempty (drop 4 cs) tok rep)"
    by (rule Hit.IH)
  have "hd t \<notin> set rep" "t \<noteq> []"
    using t rep by (auto simp: is_token_iff guarded_def)
  with no have "\<not> sublist t (rep @ replace_nonempty (drop 4 cs) tok rep)"
    using sublist_skip_prefix [of t rep "replace_nonempty (drop 4 cs) tok rep"] by blast
  then show ?case
    unfolding token_replace_hit [OF tok Hit.hyps] .
next
  case (Miss c cs)
  have "t = tok \<or> \<not> sublist t cs"
    using Miss.prems by (auto simp: sublist_Cons_right)
  then have no: "\<not> sublist t (replace_nonempty cs tok rep)"
    by (rule Miss.IH)
  have "\<not> prefix t (c # replace_nonempty cs tok rep)"
  proof
    assume p: "prefix t (c # replace_nonempty cs tok rep)"
    from t obtain a b d where t_eq: "t = [CHR ''{'', a, b, d, CHR ''}'']"
      and up: "is_upper a" "is_upper b" "is_upper d"
      by (auto simp: is_token_iff)
    from p t_eq have c: "c = CHR ''{''"
      and p': "prefix [a, b, d, CHR ''}''] (replace_nonempty cs tok rep)"
      by simp_all
    have "prefix [a, b, d, CHR ''}''] cs"
    proof (rule replace_prefix_back [OF tok rep _ _ _ p'])
      show "CHR ''{'' \<notin> set [a, b, d, CHR ''}'']"
        using up by (auto dest: is_upper_not_brace)
    qed simp_all
    with c t_eq have pt: "prefix t (c # cs)" by simp
    then have "sublist t (c # cs)" by (rule prefix_imp_sublist)
    with Miss.prems have "t = tok" by blast
    with pt Miss.hyps show False by simp
  qed
  with no show ?case
    unfolding token_replace_miss [OF Miss.hyps] by (simp add: sublist_Cons_right)
qed

text \<open>An occurrence of the token becomes an occurrence of the replacement.\<close>

lemma replace_puts_new:
  assumes tok: "is_token tok"
  shows "sublist tok s \<Longrightarrow> sublist rep (replace_nonempty s tok rep)"
proof (induction s rule: scan_induct [where tok = tok])
  case Nil
  with tok show ?case by (auto simp: is_token_iff)
next
  case (Hit c cs)
  show ?case
    unfolding token_replace_hit [OF tok Hit.hyps] by (rule sublist_append_rightI)
next
  case (Miss c cs)
  from Miss.prems Miss.hyps have "sublist tok cs"
    by (simp add: sublist_Cons_right)
  then have "sublist rep (replace_nonempty cs tok rep)"
    by (rule Miss.IH)
  then show ?case
    unfolding token_replace_miss [OF Miss.hyps] by (simp add: sublist_Cons_right)
qed

lemma token_at_take: "token_at s \<Longrightarrow> is_token (take 5 s)"
  unfolding is_token_def by (cases s rule: token_at.cases) simp_all

lemma token_at_prefix: "is_token t \<Longrightarrow> prefix t s \<Longrightarrow> token_at s"
  by (auto simp: is_token_iff prefix_def)

lemma findall_tokens_none: "\<not> contains_token s \<Longrightarrow> findall_tokens s = []"
  by (induction s rule: findall_tokens.induct) simp_all

lemma contains_token_iff: "contains_token s \<longleftrightarrow> (\<exists>t. is_token t \<and> sublist t s)"
proof (induction s)
  case Nil
  show ?case by (auto simp: is_token_iff)
next
  case (Cons c cs)
  show ?case
  proof
    assume "contains_token (c # cs)"
    then consider "token_at (c # cs)" | "contains_token cs" by auto
    then show "\<exists>t. is_token t \<and> sublist t (c # cs)"
    proof cases
      case 1
      then have "is_token (take 5 (c # cs))" by (rule token_at_take)
      moreover have "sublist (take 5 (c # cs)) (c # cs)" by (rule sublist_take)
      ultimately show ?thesis by blast
    next
      case 2
      with Cons obtain t where "is_token t" "sublist t cs" by blast
      then show ?thesis by (auto simp: sublist_Cons_right)
    qed
  next
    assume "\<exists>t. is_token t \<and> sublist t (c # cs)"
    then obtain t where t: "is_token t" and "sublist t (c # cs)" by blast
    then consider "prefix t (c # cs)" | "sublist t cs"
      by (auto simp: sublist_Cons_right)
    then show "contains_token (c # cs)"
    proof cases
      case 1
      with t have "token_at (c # cs)" by (rule token_at_prefix)
      then show ?thesis by simp
    next
      case 2
      with t Cons show ?thesis by auto
    qed
  qed
qed

lemma sublist_prepend: "sublist r u \<Longrightarrow> sublist r (p @ u)"
  by (metis append_assoc sublist_def)

lemma sublist_past_token_guarded:
  assumes "is_token tok" and "guarded r" and "sublist r (tok @ u)"
  shows "sublist r u"
proof -
  from assms(2) obtain r0 r1 r2 r3 r' where r: "r = r0 # r1 # r2 # r3 # r'"
    by (cases r rule: token_at.cases) (auto simp: guarded_def)
  with assms(2) have "r0 \<noteq> CHR ''{''" "r0 \<noteq> CHR ''}''" "r1 \<noteq> CHR ''}''"
    "r2 \<noteq> CHR ''}''" "r3 \<noteq> CHR ''}''"
    by (auto simp: guarded_def)
  with assms(1,3) r show ?thesis
    by (auto simp: is_token_iff sublist_Cons_right)
qed

lemma sublist_past_token_other:
  assumes "is_token tok" and "is_token t" and "t \<noteq> tok" and "sublist t (tok @ u)"
  shows "sublist t u"
  using assms by (auto simp: is_token_iff sublist_Cons_right dest: is_upper_not_brace)

text \<open>A text that cannot overlap the token survives the replacement of the token.\<close>

lemma replace_keeps:
  assumes tok: "is_token tok"
    and past: "\<And>u. sublist r (tok @ u) \<Longrightarrow> sublist r u"
    and plain: "CHR ''{'' \<notin> set (tl r)"
  shows "sublist r s \<Longrightarrow> sublist r (replace_nonempty s tok rep)"
proof (induction s rule: scan_induct [where tok = tok])
  case Nil
  then show ?case by simp
next
  case (Hit c cs)
  from Hit.prems have "sublist r (tok @ drop 4 cs)"
    using token_prefix_split [OF tok Hit.hyps] by simp
  then have "sublist r (drop 4 cs)" by (rule past)
  then have "sublist r (replace_nonempty (drop 4 cs) tok rep)" by (rule Hit.IH)
  then have "sublist r (rep @ replace_nonempty (drop 4 cs) tok rep)" by (rule sublist_prepend)
  then show ?case
    unfolding token_replace_hit [OF tok Hit.hyps] .
next
  case (Miss c cs)
  from Miss.prems consider "prefix r (c # cs)" | "sublist r cs"
    by (auto simp: sublist_Cons_right)
  then have "sublist r (c # replace_nonempty cs tok rep)"
  proof cases
    case 1
    show ?thesis
    proof (cases r)
      case Nil
      then show ?thesis by simp
    next
      case (Cons x r')
      with 1 obtain rest where x: "x = c" and cs: "cs = r' @ rest"
        by (auto simp: prefix_def)
      from plain Cons have "CHR ''{'' \<notin> set r'" by simp
      with tok have "replace_nonempty (r' @ rest) tok rep = r' @ replace_nonempty rest tok rep"
        by (rule replace_skip_plain)
      with x cs Cons have "prefix r (c # replace_nonempty cs tok rep)"
        by simp
      then show ?thesis by (rule prefix_imp_sublist)
    qed
  next
    case 2
    then have "sublist r (replace_nonempty cs tok rep)" by (rule Miss.IH)
    then show ?thesis by (simp add: sublist_Cons_right)
  qed
  then show ?case
    unfolding token_replace_miss [OF Miss.hyps] .
qed

lemma replace_keeps_guarded:
  assumes "is_token tok" and "guarded r" and "sublist r s"
  shows "sublist r (replace_nonempty s tok rep)"
proof (rule replace_keeps [OF assms(1) _ _ assms(3)])
  show "sublist r u" if "sublist r (tok @ u)" for u
    using assms(1,2) that by (rule sublist_past_token_guarded)
  have "set (tl r) \<subseteq> set r"
    by (cases r) auto
  then show "CHR ''{'' \<notin> set (tl r)"
    using assms(2) by (auto simp: guarded_def)
qed

lemma replace_keeps_other_token:
  assumes "is_token tok" and "is_token t" and "t \<noteq> tok" and "sublist t s"
  shows "sublist t (replace_nonempty s tok rep)"
proof (rule replace_keeps [OF assms(1) _ _ assms(4)])
  show "sublist t u" if "sublist t (tok @ u)" for u
    using assms(1,2,3) that by (rule sublist_past_token_other)
  show "CHR ''{'' \<notin> set (tl t)"
    using assms(2) by (auto simp: is_token_iff dest: is_upper_not_brace)
qed

subsection \<open>The matches of \<^verbatim>\<open>findall\<close> are the tokens of the template\<close>

lemma findall_tokens_are_tokens: "t \<in> set (findall_tokens s) \<Longrightarrow> is_token t"
proof (induction s rule: findall_tokens.induct)
  case 1
  then show ?case by simp
next
  case (2 c cs)
  show ?case
  proof (cases "token_at (c # cs)")
    case True
    with 2 token_at_take [OF True] show ?thesis by auto
  next
    case False
    with 2 show ?thesis by simp
  qed
qed

lemma findall_tokens_complete: "is_token t \<Longrightarrow> sublist t s \<Longrightarrow> t \<in> set (findall_tokens s)"
proof (induction s rule: findall_tokens.induct)
  case 1
  then show ?case by (auto simp: is_token_iff)
next
  case (2 c cs)
  show ?case
  proof (cases "token_at (c # cs)")
    case True
    let ?T = "take 5 (c # cs)"
    have T: "is_token ?T" using True by (rule token_at_take)
    have split: "c # cs = ?T @ drop 4 cs"
      by (metis append_take_drop_id drop_Suc_Cons eval_nat_numeral(3) numeral_Bit0)
    show ?thesis
    proof (cases "t = ?T")
      case True
      with \<open>token_at (c # cs)\<close> show ?thesis by simp
    next
      case False
      from "2.prems"(2) split have "sublist t (?T @ drop 4 cs)" by simp
      with T "2.prems"(1) False have "sublist t (drop 4 cs)"
        by (rule sublist_past_token_other)
      with "2.IH"(1) [OF True "2.prems"(1)] True show ?thesis by simp
    qed
  next
    case False
    from "2.prems"(2) consider "prefix t (c # cs)" | "sublist t cs"
      by (auto simp: sublist_Cons_right)
    then show ?thesis
    proof cases
      case 1
      with "2.prems"(1) have "token_at (c # cs)" by (rule token_at_prefix)
      with False show ?thesis by simp
    next
      case 2
      with "2.IH"(2) [OF False "2.prems"(1)] False show ?thesis by simp
    qed
  qed
qed

section \<open>The substitution loop\<close>

lemma digit_char_below: "d < 10 \<Longrightarrow> (of_char (digit_char d) :: nat) < 58"
proof -
  assume "d < 10"
  then have "''0123456789'' ! d \<in> set ''0123456789''"
    by (intro nth_mem) simp
  then show ?thesis
    unfolding digit_char_def by auto
qed

lemma digits10_chars: "c \<in> set (digits10 n) \<Longrightarrow> (of_char c :: nat) < 58"
proof (induction n rule: digits10.induct)
  case (1 n)
  show ?case
  proof (cases "n < 10")
    case True
    with "1.prems" show ?thesis
      by (simp add: digits10.simps [of n] digit_char_below)
  next
    case False
    with "1.prems" consider "c \<in> set (digits10 (n div 10))" | "c = digit_char (n mod 10)"
      by (auto simp: digits10.simps [of n])
    then show ?thesis
    proof cases
      case 1
      with "1.IH" False show ?thesis by simp
    next
      case 2
      then show ?thesis
        by (simp add: digit_char_below)
    qed
  qed
qed

lemma str_int_no_brace: "CHR ''{'' \<notin> set (str_int i)"
  by (auto simp: str_int_def dest: digits10_chars)

lemma hex_string_no_brace: "hex_string s \<Longrightarrow> CHR ''{'' \<notin> set s"
  by (auto simp: hex_string_def list_all_iff hex_val_def)

lemma token_code: "is_token coin \<Longrightarrow> coin = CHR ''{'' # take 3 (drop 1 coin) @ ''}''"
  by (auto simp: is_token_iff)

lemma guarded_block_str:
  assumes "is_token coin" and "CHR ''{'' \<notin> set (snd r)"
  shows "guarded (get_latest_block_str (take 3 (drop 1 coin)) r)"
  using assms str_int_no_brace [of "fst r"]
  by (auto simp: is_token_iff guarded_def get_latest_block_str_def dest: is_upper_not_brace)

lemma str_replace_token: "is_token coin \<Longrightarrow> str_replace ts coin rep = replace_nonempty ts coin rep"
  by (auto simp: str_replace_def is_token_iff)

lemma substitute_tokens_ConsE:
  assumes "substitute_tokens gl (coin # coins) ts w = (Inr ts', w', lg)"
  obtains r w1 lg1 where "gl w (take 3 (drop 1 coin)) = (Inr r, w1)"
    and "substitute_tokens gl coins
           (str_replace ts coin (get_latest_block_str (take 3 (drop 1 coin)) r)) w1
         = (Inr ts', w', lg1)"
    and "lg = (take 3 (drop 1 coin), Inr r) # lg1"
  using assms by (auto split: prod.splits sum.splits)

lemma substitute_tokens_raises:
  "substitute_tokens gl coins ts w = (Inl e, w', lg) \<Longrightarrow> \<exists>c. (c, Inl e) \<in> set lg"
proof (induction coins arbitrary: ts w lg)
  case Nil
  then show ?case by simp
next
  case (Cons coin coins)
  show ?case
  proof (cases "gl w (take 3 (drop 1 coin))")
    case (Pair res w1)
    show ?thesis
    proof (cases res)
      case (Inl e')
      with Pair Cons.prems show ?thesis by auto
    next
      case (Inr r)
      with Pair Cons.prems obtain lg1 where
        "substitute_tokens gl coins
           (str_replace ts coin (get_latest_block_str (take 3 (drop 1 coin)) r)) w1
         = (Inl e, w', lg1)" and "lg = (take 3 (drop 1 coin), Inr r) # lg1"
        by (auto split: prod.splits)
      with Cons.IH show ?thesis by fastforce
    qed
  qed
qed

lemma hex_hashes_without_brace:
  "(\<forall>w c r w'. gl w c = (Inr r, w') \<longrightarrow> hex_string (snd r)) \<Longrightarrow> hashes_without_brace gl"
  unfolding hashes_without_brace_def using hex_string_no_brace by blast

lemma hex_hashes_guarded:
  assumes "hashes_without_brace gl" and "gl w (take 3 (drop 1 coin)) = (Inr r, w1)" and "is_token coin"
  shows "guarded (get_latest_block_str (take 3 (drop 1 coin)) r)"
proof -
  from assms(1,2) have "CHR ''{'' \<notin> set (snd r)"
    unfolding hashes_without_brace_def by blast
  with assms(3) show ?thesis
    by (rule guarded_block_str)
qed

text \<open>The loop keeps every text that no token can overlap.\<close>

lemma substitute_tokens_keeps:
  assumes gl: "hashes_without_brace gl" and g: "guarded g"
  shows "list_all is_token coins \<Longrightarrow> substitute_tokens gl coins ts w = (Inr ts', w', lg)
     \<Longrightarrow> sublist g ts \<Longrightarrow> sublist g ts'"
proof (induction coins arbitrary: ts w lg)
  case Nil
  then show ?case by simp
next
  case (Cons coin coins)
  from Cons.prems(1) have coin: "is_token coin" and coins: "list_all is_token coins"
    by simp_all
  from Cons.prems(2) obtain r w1 lg1 where
    run: "substitute_tokens gl coins
           (str_replace ts coin (get_latest_block_str (take 3 (drop 1 coin)) r)) w1
         = (Inr ts', w', lg1)"
    by (rule substitute_tokens_ConsE)
  have "sublist g (replace_nonempty ts coin (get_latest_block_str (take 3 (drop 1 coin)) r))"
    using coin g Cons.prems(3) by (rule replace_keeps_guarded)
  then have "sublist g (str_replace ts coin (get_latest_block_str (take 3 (drop 1 coin)) r))"
    by (simp only: str_replace_token [OF coin])
  with Cons.IH [OF coins run] show ?case .
qed

text \<open>After the loop no token of the list occurs, and no token that did not occur before.\<close>

lemma substitute_tokens_no_token:
  assumes gl: "hashes_without_brace gl" and t: "is_token t"
  shows "list_all is_token coins \<Longrightarrow> substitute_tokens gl coins ts w = (Inr ts', w', lg)
     \<Longrightarrow> t \<in> set coins \<or> \<not> sublist t ts \<Longrightarrow> \<not> sublist t ts'"
proof (induction coins arbitrary: ts w lg)
  case Nil
  then show ?case by simp
next
  case (Cons coin coins)
  from Cons.prems(1) have coin: "is_token coin" and coins: "list_all is_token coins"
    by simp_all
  let ?rep = "\<lambda>r. get_latest_block_str (take 3 (drop 1 coin)) r"
  from Cons.prems(2) obtain r w1 lg1 where
    ans: "gl w (take 3 (drop 1 coin)) = (Inr r, w1)" and
    run: "substitute_tokens gl coins (str_replace ts coin (?rep r)) w1 = (Inr ts', w', lg1)"
    by (rule substitute_tokens_ConsE)
  have rep: "guarded (?rep r)"
    using gl ans coin by (rule hex_hashes_guarded)
  have "t \<in> set coins \<or> \<not> sublist t (str_replace ts coin (?rep r))"
  proof (cases "t \<in> set coins")
    case False
    with Cons.prems(3) have "t = coin \<or> \<not> sublist t ts" by auto
    with coin t rep have "\<not> sublist t (replace_nonempty ts coin (?rep r))"
      by (rule replace_no_token)
    then show ?thesis
      by (simp only: str_replace_token [OF coin] simp_thms)
  qed simp
  with Cons.IH [OF coins run] show ?case .
qed

text \<open>A token of the list that occurs before the loop is looked up, and the answer is in
  the result.\<close>

lemma substitute_tokens_answer:
  assumes gl: "hashes_without_brace gl" and t: "is_token t"
  shows "list_all is_token coins \<Longrightarrow> substitute_tokens gl coins ts w = (Inr ts', w', lg)
     \<Longrightarrow> t \<in> set coins \<Longrightarrow> sublist t ts
     \<Longrightarrow> \<exists>r. (take 3 (drop 1 t), Inr r) \<in> set lg
            \<and> sublist (get_latest_block_str (take 3 (drop 1 t)) r) ts'"
proof (induction coins arbitrary: ts w lg)
  case Nil
  then show ?case by simp
next
  case (Cons coin coins)
  from Cons.prems(1) have coin: "is_token coin" and coins: "list_all is_token coins"
    by simp_all
  let ?rep = "\<lambda>r. get_latest_block_str (take 3 (drop 1 coin)) r"
  from Cons.prems(2) obtain r w1 lg1 where
    ans: "gl w (take 3 (drop 1 coin)) = (Inr r, w1)" and
    run: "substitute_tokens gl coins (str_replace ts coin (?rep r)) w1 = (Inr ts', w', lg1)" and
    lg: "lg = (take 3 (drop 1 coin), Inr r) # lg1"
    by (rule substitute_tokens_ConsE)
  have rep: "guarded (?rep r)"
    using gl ans coin by (rule hex_hashes_guarded)
  show ?case
  proof (cases "t = coin")
    case True
    have "sublist (?rep r) (replace_nonempty ts coin (?rep r))"
      using coin Cons.prems(4) unfolding True by (rule replace_puts_new)
    then have "sublist (?rep r) (str_replace ts coin (?rep r))"
      by (simp only: str_replace_token [OF coin])
    with gl rep coins run have "sublist (?rep r) ts'"
      by (rule substitute_tokens_keeps)
    with lg True show ?thesis
      by (intro exI [of _ r]) simp
  next
    case False
    with Cons.prems(3) have mem: "t \<in> set coins" by simp
    have "sublist t (replace_nonempty ts coin (?rep r))"
      using coin t False Cons.prems(4) by (rule replace_keeps_other_token)
    then have "sublist t (str_replace ts coin (?rep r))"
      by (simp only: str_replace_token [OF coin])
    with Cons.IH [OF coins run mem] obtain r' where
      "(take 3 (drop 1 t), Inr r') \<in> set lg1"
      "sublist (get_latest_block_str (take 3 (drop 1 t)) r') ts'"
      by blast
    with lg show ?thesis
      by (intro exI [of _ r']) simp
  qed
qed

text \<open>
  Claim C1. A nonce of at most 64 hexadecimal digits should parse to exactly 32 bytes: the
  digits left-padded with zeros to 64 and decoded. The test of \<^verbatim>\<open>lbytes32\<close> compares the
  number of characters with 32, not with 64, so a nonce of 33 to 64 digits takes the
  truncating branch: at the 34-digit nonce below the result is the 17 bytes of the digits as
  they are, with a warning, and not the 32 bytes of the padded digits.
\<close>

theorem lbytes32_34_digits_not_padded:
  "fst (lbytes32 ''0100000000000000000000000000000000'') = Inr (replicate 16 0 @ [1])
   \<and> lx (replicate (64 - 34) CHR ''0'' @ ''0100000000000000000000000000000000'')
       = Inr (replicate 16 0 @ [1] @ replicate 15 0)
   \<and> snd (lbytes32 ''0100000000000000000000000000000000'')
       = [Warn ''Nonce can be at most 32 bytes long, is 34! Will be truncated'']"
  by code_simp

section \<open>The extranonce and the payload\<close>

lemma resolve_extranonce_override:
  "extranonce a = Some n \<Longrightarrow> n \<noteq> 0 \<Longrightarrow> resolve_extranonce a = n"
  by (simp add: resolve_extranonce_def)

lemma resolve_extranonce_none: "extranonce a = None \<Longrightarrow> resolve_extranonce a = bits a"
  by (simp add: resolve_extranonce_def)

lemmas script_defs =
  build_scriptSig_def build_scriptPubKey_def cscript_add_def CScript_def coerce_instance_def
  encode_op_pushdata_def encode_op_n_def OP_1NEGATE_def OP_CHECKSIG_def bn2vch_def
  le_bytes.simps utf8_def utf8_char_def

lemma scriptSig_bits_x: "build_scriptSig 0x1f07ffff ''x'' = Inr [4, 255, 255, 7, 31, 1, 4, 1, 120]"
  by (simp add: script_defs)

lemma scriptSig_zero_x: "build_scriptSig 0 ''x'' = Inr [0, 1, 4, 1, 120]"
  by (simp add: script_defs)

text \<open>
  Claim C2. The extranonce of the input script should be the override whenever one is
  given, 0 included. The program tests the truth value of the option, so the override
  0 counts as no override: the extranonce is the compact bits, and the script begins with
  the push of the bits where the override 0 would give the single byte \<^verbatim>\<open>OP_0\<close>.
\<close>

theorem extranonce_override_zero_ignored:
  "resolve_extranonce (a\<lparr>extranonce := Some 0\<rparr>) = bits a
   \<and> build_scriptSig (resolve_extranonce (a\<lparr>extranonce := Some 0, bits := 0x1f07ffff\<rparr>)) ''x''
       = Inr [4, 255, 255, 7, 31, 1, 4, 1, 120]
   \<and> build_scriptSig 0 ''x'' = Inr [0, 1, 4, 1, 120]"
  by (simp add: resolve_extranonce_def scriptSig_bits_x scriptSig_zero_x)

lemma resolve_pszTimestamp_override:
  "pszTimestamp a = Some p \<Longrightarrow> p \<noteq> [] \<Longrightarrow> resolve_pszTimestamp lib a w = (Inr p, w, [])"
  by (simp add: resolve_pszTimestamp_def)

lemma resolve_pszTimestamp_none:
  "pszTimestamp a = None \<Longrightarrow>
     resolve_pszTimestamp lib a w = build_pszTimestamp lib (coinname a) (timestamp a) w"
  by (simp add: resolve_pszTimestamp_def)

lemma build_pszTimestamp_BTC_lookups:
  "map fst (snd (snd (build_pszTimestamp lib cn ''{BTC}'' w))) = [''BTC'']"
proof (cases "get_latest lib w ''BTC''")
  case (Pair res w1)
  then show ?thesis
    by (cases res) (simp_all add: build_pszTimestamp_def is_upper_def split: prod.splits)
qed

text \<open>
  Claim C3. An override of the payload, the empty string included, should be used as it is
  and keep \<^verbatim>\<open>build_pszTimestamp\<close> from being called. The program tests the truth value of
  the option, so with the empty override it calls \<^verbatim>\<open>build_pszTimestamp\<close> as if no override
  were given; with the template \<^verbatim>\<open>{BTC}\<close> the block explorer is asked for BTC.
\<close>

theorem empty_override_calls_build_pszTimestamp:
  "resolve_pszTimestamp lib (a\<lparr>pszTimestamp := Some ''''\<rparr>) w
     = build_pszTimestamp lib (coinname a) (timestamp a) w
   \<and> map fst (snd (snd (resolve_pszTimestamp lib
         (a\<lparr>pszTimestamp := Some '''', timestamp := ''{BTC}''\<rparr>) w))) = [''BTC'']"
  by (simp add: resolve_pszTimestamp_def build_pszTimestamp_BTC_lookups)

section \<open>Templates without tokens\<close>

text \<open>
  Claim C4. For a template in which the token pattern matches nowhere,
  \<^verbatim>\<open>build_pszTimestamp\<close> returns the coin name followed by the lowercase hexadecimal
  digest of the UTF-8 bytes of the template; the block explorer is not called (the list of
  calls is empty and the world is as before).
\<close>

theorem build_pszTimestamp_without_tokens:
  "\<not> contains_token template \<Longrightarrow>
     build_pszTimestamp lib coinName template w
       = (Inr (coinName @ hexlify (blake2s lib (utf8 template))), w, [])"
  by (simp add: build_pszTimestamp_def findall_tokens_none)

theorem build_pszTimestamp_without_tokens_witness:
  "\<not> contains_token ''Known unknown {btc} {BT}''
   \<and> build_pszTimestamp demo_lib ''Zcash'' ''Known unknown {btc} {BT}'' 436254
       = (Inr (''Zcash'' @ hexlify (blake2s demo_lib (utf8 ''Known unknown {btc} {BT}''))),
          436254, [])"
proof -
  have h: "\<not> contains_token ''Known unknown {btc} {BT}''"
    by (simp add: is_upper_def)
  from build_pszTimestamp_without_tokens [OF h, of demo_lib "''Zcash''" 436254] h
  show ?thesis by simp
qed

section \<open>The loop and the substitution in one pass\<close>

lemma token_at_split:
  assumes "token_at (c # cs)"
  shows "c # cs = (''{'' @ take 3 cs @ ''}'') @ drop 4 cs" and "is_token (''{'' @ take 3 cs @ ''}'')"
proof -
  from assms obtain a b d rest where cs: "cs = a # b # d # CHR ''}'' # rest" and c: "c = CHR ''{''"
    and up: "is_upper a" "is_upper b" "is_upper d"
    by (cases "c # cs" rule: token_at.cases) auto
  from cs c show "c # cs = (''{'' @ take 3 cs @ ''}'') @ drop 4 cs" by simp
  from cs up show "is_token (''{'' @ take 3 cs @ ''}'')" by (simp add: is_token_def)
qed

lemma expand_tokens_identity: "expand_tokens (\<lambda>code. ''{'' @ code @ ''}'') s = s"
proof (induction "\<lambda>code. ''{'' @ code @ ''}''" s rule: expand_tokens.induct)
  case 1
  show ?case by simp
next
  case (2 c cs)
  show ?case
  proof (cases "token_at (c # cs)")
    case True
    from token_at_split(1) [OF True] "2.hyps"(1) [OF True] True show ?thesis
      by simp
  next
    case False
    with "2.hyps"(2) show ?thesis by simp
  qed
qed

lemma guarded_no_short_prefix:
  assumes "guarded g" and "w \<noteq> []" and "length w \<le> 4" and "last w = CHR ''}''"
  shows "\<not> prefix w (g @ u)"
proof
  assume "prefix w (g @ u)"
  moreover have "length w \<le> length g"
    using assms(1,3) by (simp add: guarded_def)
  ultimately have "prefix w g"
    by (metis prefix_length_prefix prefixI)
  then have "w = take (length w) g"
    by (metis append_eq_conv_conj prefixE)
  then have "set w \<subseteq> set (take 4 g)"
    using assms(3) by (metis set_take_subset_set_take)
  moreover have "CHR ''}'' \<in> set w"
    using assms(2,4) by (metis last_in_set)
  ultimately show False
    using assms(1) by (auto simp: guarded_def)
qed

lemma expand_prefix_back:
  assumes f: "texts_guarded f"
  shows "CHR ''{'' \<notin> set w \<Longrightarrow> length w \<le> 4 \<Longrightarrow> (w \<noteq> [] \<Longrightarrow> last w = CHR ''}'')
     \<Longrightarrow> prefix w (expand_tokens f s) \<Longrightarrow> prefix w s"
proof (induction w arbitrary: s)
  case Nil
  show ?case by simp
next
  case (Cons x w)
  show ?case
  proof (cases s)
    case Nil
    with Cons.prems(4) show ?thesis by simp
  next
    case (Cons c cs)
    show ?thesis
    proof (cases "token_at (c # cs)")
      case True
      let ?u = "expand_tokens f (drop 4 cs)"
      from True Cons Cons.prems(4) have p: "prefix (x # w) (f (take 3 cs) @ ?u)"
        by simp
      from f consider "f (take 3 cs) = ''{'' @ take 3 cs @ ''}''" | "guarded (f (take 3 cs))"
        unfolding texts_guarded_def by blast
      then show ?thesis
      proof cases
        case 1
        with p have "x = CHR ''{''" by simp
        with Cons.prems(1) show ?thesis by simp
      next
        case 2
        have "last (x # w) = CHR ''}''"
          using Cons.prems(3) by simp
        with 2 have "\<not> prefix (x # w) (f (take 3 cs) @ ?u)"
          using Cons.prems(2) by (intro guarded_no_short_prefix) simp_all
        with p show ?thesis by simp
      qed
    next
      case False
      with Cons Cons.prems(4) have xc: "x = c" and pw: "prefix w (expand_tokens f cs)"
        by simp_all
      have "prefix w cs"
      proof (rule Cons.IH [OF _ _ _ pw])
        show "CHR ''{'' \<notin> set w" using Cons.prems(1) by simp
        show "length w \<le> 4" using Cons.prems(2) by simp
        show "last w = CHR ''}''" if "w \<noteq> []" using Cons.prems(3) that by simp
      qed
      with xc Cons show ?thesis by simp
    qed
  qed
qed

lemma replace_hit_append:
  assumes "is_token tok"
  shows "replace_nonempty (tok @ u) tok rep = rep @ replace_nonempty u tok rep"
proof -
  from assms obtain a b d where "tok = [CHR ''{'', a, b, d, CHR ''}'']"
    by (auto simp: is_token_iff)
  then show ?thesis by simp
qed

lemma replace_other_token:
  assumes "is_token tok" and "is_token t" and "t \<noteq> tok"
  shows "replace_nonempty (t @ u) tok rep = t @ replace_nonempty u tok rep"
proof -
  from assms(2) obtain a b d where t: "t = [CHR ''{'', a, b, d, CHR ''}'']"
    and up: "is_upper a" "is_upper b" "is_upper d"
    by (auto simp: is_token_iff)
  from assms(1) obtain a' b' d' where tok: "tok = [CHR ''{'', a', b', d', CHR ''}'']"
    by (auto simp: is_token_iff)
  from t tok assms(3) have miss: "\<not> prefix tok (CHR ''{'' # [a, b, d, CHR ''}''] @ u)"
    by auto
  have "CHR ''{'' \<notin> set [a, b, d, CHR ''}'']"
    using up by (auto dest: is_upper_not_brace)
  with assms(1)
  have "replace_nonempty ([a, b, d, CHR ''}''] @ u) tok rep
      = [a, b, d, CHR ''}''] @ replace_nonempty u tok rep"
    by (rule replace_skip_plain)
  with miss t show ?thesis
    using token_replace_miss [OF miss, of rep] by simp
qed

text \<open>Replacing a token in an expanded template is expanding with the new text for the
  code of the token.\<close>

lemma replace_expand:
  assumes tok: "is_token tok" and rep: "guarded rep" and f: "texts_guarded f"
  shows "replace_nonempty (expand_tokens f s) tok rep
     = expand_tokens (\<lambda>c. if c = take 3 (drop 1 tok) \<and> f c = tok then rep else f c) s"
proof (induction s rule: findall_tokens.induct)
  case 1
  show ?case by simp
next
  case (2 c cs)
  let ?f' = "\<lambda>c. if c = take 3 (drop 1 tok) \<and> f c = tok then rep else f c"
  show ?case
  proof (cases "token_at (c # cs)")
    case True
    let ?c0 = "take 3 cs"
    let ?t0 = "''{'' @ ?c0 @ ''}''"
    let ?u = "expand_tokens f (drop 4 cs)"
    have t0: "is_token ?t0" using True by (rule token_at_split(2))
    have IH: "replace_nonempty ?u tok rep = expand_tokens ?f' (drop 4 cs)"
      using True by (rule "2.IH"(1))
    have lhs: "expand_tokens f (c # cs) = f ?c0 @ ?u"
      using True by simp
    have rhs: "expand_tokens ?f' (c # cs) = ?f' ?c0 @ expand_tokens ?f' (drop 4 cs)"
      using True by simp
    have "replace_nonempty (f ?c0 @ ?u) tok rep = ?f' ?c0 @ replace_nonempty ?u tok rep"
    proof (cases "f ?c0 = tok")
      case True
      then have "replace_nonempty (f ?c0 @ ?u) tok rep = rep @ replace_nonempty ?u tok rep"
        using replace_hit_append [OF tok] by simp
      moreover have "?c0 = take 3 (drop 1 tok)"
      proof -
        from f consider "f ?c0 = ?t0" | "guarded (f ?c0)"
          unfolding texts_guarded_def by blast
        then show ?thesis
        proof cases
          case 1
          with True have "tok = ?t0" by simp
          then have "take 3 (drop 1 tok) = take 3 (?c0 @ ''}'')" by simp
          also have "\<dots> = ?c0"
          proof -
            from t0 have "length ?c0 = 3" by (simp add: is_token_def)
            then show ?thesis by simp
          qed
          finally show ?thesis by simp
        next
          case 2
          with True tok show ?thesis by (auto simp: guarded_def is_token_iff)
        qed
      qed
      ultimately show ?thesis using True by simp
    next
      case False
      then have same: "?f' ?c0 = f ?c0" by simp
      from f consider "f ?c0 = ?t0" | "guarded (f ?c0)"
        unfolding texts_guarded_def by blast
      then have "replace_nonempty (f ?c0 @ ?u) tok rep = f ?c0 @ replace_nonempty ?u tok rep"
      proof cases
        case 1
        with False have "?t0 \<noteq> tok" by simp
        with tok t0 have "replace_nonempty (?t0 @ ?u) tok rep = ?t0 @ replace_nonempty ?u tok rep"
          by (rule replace_other_token)
        with 1 show ?thesis by simp
      next
        case 2
        then have "CHR ''{'' \<notin> set (f ?c0)" by (simp add: guarded_def)
        with tok show ?thesis by (rule replace_skip_plain)
      qed
      with same show ?thesis by simp
    qed
    with IH lhs rhs show ?thesis by simp
  next
    case False
    let ?u = "expand_tokens f cs"
    have IH: "replace_nonempty ?u tok rep = expand_tokens ?f' cs"
      using False by (rule "2.IH"(2))
    have miss: "\<not> prefix tok (c # ?u)"
    proof
      assume p: "prefix tok (c # ?u)"
      from tok obtain a b d where t_eq: "tok = [CHR ''{'', a, b, d, CHR ''}'']"
        and up: "is_upper a" "is_upper b" "is_upper d"
        by (auto simp: is_token_iff)
      from p t_eq have c: "c = CHR ''{''" and p': "prefix [a, b, d, CHR ''}''] ?u"
        by simp_all
      have "prefix [a, b, d, CHR ''}''] cs"
      proof (rule expand_prefix_back [OF f _ _ _ p'])
        show "CHR ''{'' \<notin> set [a, b, d, CHR ''}'']"
          using up by (auto dest: is_upper_not_brace)
      qed simp_all
      with c t_eq have "prefix tok (c # cs)" by simp
      with tok have "token_at (c # cs)" by (rule token_at_prefix)
      with False show False by simp
    qed
    have "replace_nonempty (c # ?u) tok rep = c # replace_nonempty ?u tok rep"
      using miss by (rule token_replace_miss)
    with IH False show ?thesis by simp
  qed
qed

lemma texts_guarded_answer_text:
  assumes "answers_guarded lg"
  shows "texts_guarded (answer_text lg)"
  unfolding texts_guarded_def
proof
  fix code
  show "answer_text lg code = ''{'' @ code @ ''}'' \<or> guarded (answer_text lg code)"
  proof (cases "map_of lg code")
    case None
    then show ?thesis by (simp add: answer_text_def)
  next
    case (Some a)
    then have "(code, a) \<in> set lg" by (rule map_of_SomeD)
    with assms obtain r where "a = Inr r" "guarded (get_latest_block_str code r)"
      unfolding answers_guarded_def by fastforce
    with Some show ?thesis by (simp add: answer_text_def)
  qed
qed

lemma answer_text_snoc:
  assumes lg: "answers_guarded lg" and coin: "is_token coin"
    and rep: "guarded (get_latest_block_str (take 3 (drop 1 coin)) r)"
  shows "(\<lambda>c. if c = take 3 (drop 1 coin) \<and> answer_text lg c = coin
               then get_latest_block_str (take 3 (drop 1 coin)) r else answer_text lg c)
         = answer_text (lg @ [(take 3 (drop 1 coin), Inr r)])"
proof
  fix c
  let ?code = "take 3 (drop 1 coin)"
  have coin_eq: "coin = ''{'' @ ?code @ ''}''"
    using token_code [OF coin] by simp
  show "(if c = ?code \<and> answer_text lg c = coin then get_latest_block_str ?code r
         else answer_text lg c)
        = answer_text (lg @ [(?code, Inr r)]) c"
  proof (cases "map_of lg c")
    case None
    show ?thesis
    proof (cases "c = ?code")
      case True
      with None coin_eq show ?thesis
        by (simp add: answer_text_def map_add_def)
    next
      case False
      with None show ?thesis
        by (simp add: answer_text_def map_add_def)
    qed
  next
    case (Some a)
    then have "(c, a) \<in> set lg" by (rule map_of_SomeD)
    with lg obtain r0 where a: "a = Inr r0" and g: "guarded (get_latest_block_str c r0)"
      unfolding answers_guarded_def by fastforce
    from g have "CHR ''{'' \<notin> set (get_latest_block_str c r0)"
      by (simp add: guarded_def)
    moreover have "CHR ''{'' \<in> set coin"
      using coin by (auto simp: is_token_iff)
    ultimately have "get_latest_block_str c r0 \<noteq> coin" by auto
    with Some a show ?thesis
      by (simp add: answer_text_def map_add_def)
  qed
qed

lemma answers_guarded_snoc:
  assumes "answers_guarded lg" and "guarded (get_latest_block_str c r)"
  shows "answers_guarded (lg @ [(c, Inr r)])"
  unfolding answers_guarded_def
proof
  fix call
  assume "call \<in> set (lg @ [(c, Inr r)])"
  then consider "call \<in> set lg" | "call = (c, Inr r)" by auto
  then show "\<exists>r'. snd call = Inr r' \<and> guarded (get_latest_block_str (fst call) r')"
  proof cases
    case 1
    with assms(1) show ?thesis unfolding answers_guarded_def by blast
  next
    case 2
    with assms(2) show ?thesis by (intro exI [of _ r]) simp
  qed
qed

text \<open>The loop computes the substitution in one pass, with the first answer for every
  code.\<close>

lemma substitute_tokens_expand:
  assumes gl: "hashes_without_brace gl"
  shows "list_all is_token coins \<Longrightarrow> answers_guarded lg0 \<Longrightarrow>
     substitute_tokens gl coins (expand_tokens (answer_text lg0) template) w = (Inr ts', w', lg)
     \<Longrightarrow> ts' = expand_tokens (answer_text (lg0 @ lg)) template \<and> answers_guarded (lg0 @ lg)"
proof (induction coins arbitrary: lg0 w lg)
  case Nil
  then show ?case by simp
next
  case (Cons coin coins)
  from Cons.prems(1) have coin: "is_token coin" and coins: "list_all is_token coins"
    by simp_all
  let ?code = "take 3 (drop 1 coin)"
  let ?ts = "expand_tokens (answer_text lg0) template"
  from Cons.prems(3) obtain r w1 lg1 where
    ans: "gl w ?code = (Inr r, w1)" and
    run: "substitute_tokens gl coins (str_replace ?ts coin (get_latest_block_str ?code r)) w1
            = (Inr ts', w', lg1)" and
    lg: "lg = (?code, Inr r) # lg1"
    by (rule substitute_tokens_ConsE)
  have rep: "guarded (get_latest_block_str ?code r)"
    using gl ans coin by (rule hex_hashes_guarded)
  have f: "texts_guarded (answer_text lg0)"
    using Cons.prems(2) by (rule texts_guarded_answer_text)
  have "str_replace ?ts coin (get_latest_block_str ?code r)
      = replace_nonempty ?ts coin (get_latest_block_str ?code r)"
    using coin by (rule str_replace_token)
  also have "\<dots> = expand_tokens
      (\<lambda>c. if c = ?code \<and> answer_text lg0 c = coin then get_latest_block_str ?code r
           else answer_text lg0 c) template"
    using coin rep f by (rule replace_expand)
  also have "\<dots> = expand_tokens (answer_text (lg0 @ [(?code, Inr r)])) template"
    by (simp only: answer_text_snoc [OF Cons.prems(2) coin rep])
  finally have step: "str_replace ?ts coin (get_latest_block_str ?code r)
      = expand_tokens (answer_text (lg0 @ [(?code, Inr r)])) template" .
  have ok: "answers_guarded (lg0 @ [(?code, Inr r)])"
    using Cons.prems(2) rep by (rule answers_guarded_snoc)
  from Cons.IH [OF coins ok run [unfolded step]] lg show ?case by simp
qed

lemma substitute_tokens_trace:
  "substitute_tokens gl coins ts w = (res, w', lg) \<Longrightarrow> lookup_trace gl w lg w'"
proof (induction coins arbitrary: ts w lg)
  case Nil
  then show ?case by simp
next
  case (Cons coin coins)
  obtain a w1 where ans: "gl w (take 3 (drop 1 coin)) = (a, w1)"
    by (cases "gl w (take 3 (drop 1 coin))")
  show ?case
  proof (cases a)
    case (Inl e)
    with ans Cons.prems show ?thesis by auto
  next
    case (Inr r)
    with ans Cons.prems obtain lg1 where
      run: "substitute_tokens gl coins
             (str_replace ts coin (get_latest_block_str (take 3 (drop 1 coin)) r)) w1
            = (res, w', lg1)" and lg: "lg = (take 3 (drop 1 coin), Inr r) # lg1"
      by (auto split: prod.splits)
    from Cons.IH [OF run] ans Inr lg show ?thesis by simp
  qed
qed

lemma substitute_tokens_codes:
  "substitute_tokens gl coins ts w = (Inr ts', w', lg) \<Longrightarrow>
     map fst lg = map (\<lambda>coin. take 3 (drop 1 coin)) coins"
proof (induction coins arbitrary: ts w lg)
  case Nil
  then show ?case by simp
next
  case (Cons coin coins)
  from Cons.prems obtain r w1 lg1 where
    run: "substitute_tokens gl coins
           (str_replace ts coin (get_latest_block_str (take 3 (drop 1 coin)) r)) w1
          = (Inr ts', w', lg1)" and lg: "lg = (take 3 (drop 1 coin), Inr r) # lg1"
    by (rule substitute_tokens_ConsE)
  from Cons.IH [OF run] lg show ?case by simp
qed

lemma substitute_tokens_raised:
  "substitute_tokens gl coins ts w = (Inl e, w', lg) \<Longrightarrow>
     lg \<noteq> [] \<and> snd (last lg) = Inl e
     \<and> (\<forall>call \<in> set (butlast lg). \<exists>r. snd call = Inr r)
     \<and> prefix (map fst lg) (map (\<lambda>coin. take 3 (drop 1 coin)) coins)"
proof (induction coins arbitrary: ts w lg)
  case Nil
  then show ?case by simp
next
  case (Cons coin coins)
  obtain a w1 where ans: "gl w (take 3 (drop 1 coin)) = (a, w1)"
    by (cases "gl w (take 3 (drop 1 coin))")
  show ?case
  proof (cases a)
    case (Inl e')
    with ans Cons.prems show ?thesis by auto
  next
    case (Inr r)
    with ans Cons.prems obtain lg1 where
      run: "substitute_tokens gl coins
             (str_replace ts coin (get_latest_block_str (take 3 (drop 1 coin)) r)) w1
            = (Inl e, w', lg1)" and lg: "lg = (take 3 (drop 1 coin), Inr r) # lg1"
      by (auto split: prod.splits)
    from Cons.IH [OF run] lg show ?thesis by auto
  qed
qed

text \<open>Where the template has a token, the expanded template has the text for its code.\<close>

lemma expand_tokens_puts_text:
  assumes t: "is_token t"
  shows "sublist t s \<Longrightarrow> sublist (f (take 3 (drop 1 t))) (expand_tokens f s)"
proof (induction s rule: findall_tokens.induct)
  case 1
  with t show ?case by (auto simp: is_token_iff)
next
  case (2 c cs)
  show ?case
  proof (cases "token_at (c # cs)")
    case True
    let ?t0 = "''{'' @ take 3 cs @ ''}''"
    have t0: "is_token ?t0" and split: "c # cs = ?t0 @ drop 4 cs"
      using token_at_split [OF True] by simp_all
    show ?thesis
    proof (cases "t = ?t0")
      case eq: True
      from t0 have "length (take 3 cs) = 3" by (simp add: is_token_def)
      then have "take 3 (drop 1 t) = take 3 cs" unfolding eq by simp
      with True show ?thesis by simp
    next
      case False
      from "2.prems" split have "sublist t (?t0 @ drop 4 cs)" by simp
      with t0 t False have "sublist t (drop 4 cs)"
        by (rule sublist_past_token_other)
      with "2.IH"(1) [OF True] have "sublist (f (take 3 (drop 1 t))) (expand_tokens f (drop 4 cs))"
        by simp
      then have "sublist (f (take 3 (drop 1 t)))
          (f (take 3 cs) @ expand_tokens f (drop 4 cs))"
        by (rule sublist_prepend)
      with True show ?thesis by simp
    qed
  next
    case False
    from "2.prems" consider "prefix t (c # cs)" | "sublist t cs"
      by (auto simp: sublist_Cons_right)
    then show ?thesis
    proof cases
      case 1
      with t have "token_at (c # cs)" by (rule token_at_prefix)
      with False show ?thesis by simp
    next
      case 2
      with "2.IH"(2) [OF False] False show ?thesis
        by (simp add: sublist_Cons_right)
    qed
  qed
qed

section \<open>Templates with tokens\<close>

lemma braces_token:
  assumes "length code = 3" and "list_all is_upper code"
  shows "is_token (''{'' @ code @ ''}'')" and "take 3 (drop 1 (''{'' @ code @ ''}'')) = code"
proof -
  from assms(1) obtain a b c where code: "code = [a, b, c]"
    by (cases code rule: token_at.cases) simp_all
  with assms(2) show "is_token (''{'' @ code @ ''}'')"
    by (simp add: is_token_def)
  from code show "take 3 (drop 1 (''{'' @ code @ ''}'')) = code"
    by simp
qed

text \<open>
  Claim C5, as it is stated, fails: nothing keeps the hash that the block explorer returns
  from containing a token. With a block explorer whose hash for BTC is \<^verbatim>\<open>{BTC}\<close> the
  template \<^verbatim>\<open>{BTC}\<close> becomes \<^verbatim>\<open>BTC#1 {BTC}\<close>, which contains the token.
\<close>

theorem token_comes_back_with_the_hash:
  "substitute_tokens token_explorer (findall_tokens ''{BTC}'') ''{BTC}'' 0
     = (Inr ''BTC#1 {BTC}'', 0, [(''BTC'', Inr (1, ''{BTC}''))])
   \<and> sublist ''{BTC}'' ''BTC#1 {BTC}''"
proof
  show "substitute_tokens token_explorer (findall_tokens ''{BTC}'') ''{BTC}'' 0
     = (Inr ''BTC#1 {BTC}'', 0, [(''BTC'', Inr (1, ''{BTC}''))])"
    by (simp add: token_explorer_def is_upper_def str_replace_def get_latest_block_str_def
        str_int_def digits10.simps digit_char_def)
  show "sublist ''{BTC}'' ''BTC#1 {BTC}''"
    by (simp add: sublist_Cons_right)
qed

text \<open>
  Claim C5, as the code has it. Let the template contain the token of a three-letter
  uppercase code, and let no hash that the block explorer returns contain an opening brace
  (no hexadecimal hash does). The calls listed are the calls that the block explorer really
  answered, one for every match of the pattern, in order.

  When a call raises, the loop stops there and raises the same exception. Otherwise the
  substituted template is the template with every token replaced by the code, \<^verbatim>\<open>#\<close>, the
  height, a space and the hash of the first answer for its code; it contains that text for
  the code of the token, no occurrence of the token, and no other token.
\<close>

theorem tokens_replaced_by_latest_block:
  assumes "length code = 3" and "list_all is_upper code"
    and "sublist (''{'' @ code @ ''}'') template"
    and "hashes_without_brace (get_latest lib)"
  shows "case substitute_tokens (get_latest lib) (findall_tokens template) template w of
           (Inl e, w', lg) \<Rightarrow>
             lookup_trace (get_latest lib) w lg w'
             \<and> lg \<noteq> [] \<and> snd (last lg) = Inl e
             \<and> (\<forall>call \<in> set (butlast lg). \<exists>r. snd call = Inr r)
             \<and> prefix (map fst lg) (map (\<lambda>coin. take 3 (drop 1 coin)) (findall_tokens template))
         | (Inr ts, w', lg) \<Rightarrow>
             lookup_trace (get_latest lib) w lg w'
             \<and> map fst lg = map (\<lambda>coin. take 3 (drop 1 coin)) (findall_tokens template)
             \<and> ts = expand_tokens (answer_text lg) template
             \<and> (\<exists>r. map_of lg code = Some (Inr r)
                  \<and> sublist (code @ ''#'' @ str_int (fst r) @ '' '' @ snd r) ts)
             \<and> \<not> sublist (''{'' @ code @ ''}'') ts
             \<and> \<not> contains_token ts"
proof (cases "substitute_tokens (get_latest lib) (findall_tokens template) template w")
  case (fields res w' lg)
  have trace: "lookup_trace (get_latest lib) w lg w'"
    using fields by (rule substitute_tokens_trace)
  show ?thesis
  proof (cases res)
    case (Inl e)
    from substitute_tokens_raised [OF fields [unfolded Inl]] trace fields Inl
    show ?thesis by simp
  next
    case (Inr ts)
    let ?tok = "''{'' @ code @ ''}''"
    let ?coins = "findall_tokens template"
    note run = fields [unfolded Inr]
    have tok: "is_token ?tok" and code: "take 3 (drop 1 ?tok) = code"
      using assms(1,2) by (rule braces_token)+
    have all: "list_all is_token ?coins"
      by (simp add: list_all_iff findall_tokens_are_tokens)
    have mem: "?tok \<in> set ?coins"
      using tok assms(3) by (rule findall_tokens_complete)
    have codes: "map fst lg = map (\<lambda>coin. take 3 (drop 1 coin)) ?coins"
      using run by (rule substitute_tokens_codes)
    have start: "expand_tokens (answer_text []) template = template"
      using expand_tokens_identity [of template]
      by (simp add: answer_text_def [abs_def])
    have none: "answers_guarded []"
      by (simp add: answers_guarded_def)
    have run0: "substitute_tokens (get_latest lib) ?coins
        (expand_tokens (answer_text []) template) w = (Inr ts, w', lg)"
      unfolding start by (rule run)
    have "ts = expand_tokens (answer_text ([] @ lg)) template \<and> answers_guarded ([] @ lg)"
      using assms(4) all none run0 by (rule substitute_tokens_expand)
    then have ts: "ts = expand_tokens (answer_text lg) template" and ok: "answers_guarded lg"
      by simp_all
    from mem code have "code \<in> set (map fst lg)"
      unfolding codes by force
    then obtain a where a: "map_of lg code = Some a"
      by (metis map_of_eq_None_iff not_Some_eq set_map)
    then have "(code, a) \<in> set lg" by (rule map_of_SomeD)
    with ok obtain r where r: "a = Inr r"
      unfolding answers_guarded_def by fastforce
    have "sublist (answer_text lg (take 3 (drop 1 ?tok))) (expand_tokens (answer_text lg) template)"
      using tok assms(3) by (rule expand_tokens_puts_text)
    with a r have found: "sublist (get_latest_block_str code r) ts"
      unfolding code ts by (simp add: answer_text_def)
    have gone: "\<not> sublist t ts" if t: "is_token t" for t
    proof (rule substitute_tokens_no_token [OF assms(4) t all run])
      show "t \<in> set ?coins \<or> \<not> sublist t template"
        using findall_tokens_complete [OF t] by blast
    qed
    then have "\<not> contains_token ts"
      by (simp add: contains_token_iff)
    moreover have "\<not> sublist ?tok ts"
      using tok by (rule gone)
    moreover have "\<exists>r. map_of lg code = Some (Inr r)
        \<and> sublist (code @ ''#'' @ str_int (fst r) @ '' '' @ snd r) ts"
      using a r found by (intro exI [of _ r]) (simp add: get_latest_block_str_def)
    ultimately show ?thesis
      using fields Inr trace codes ts by simp
  qed
qed

lemma demo_hashes_without_brace: "hashes_without_brace (get_latest demo_lib)"
  by (simp add: hashes_without_brace_def demo_lib_def)

lemma demo_substitution:
  "substitute_tokens (get_latest demo_lib) (findall_tokens ''{BTC} or {BTC}'')
      ''{BTC} or {BTC}'' 436254
   = (Inr ''BTC#436254 00ab or BTC#436254 00ab'', 436256,
      [(''BTC'', Inr (436254, ''00ab'')), (''BTC'', Inr (436255, ''00ab''))])"
  by (simp add: demo_lib_def is_upper_def str_replace_def get_latest_block_str_def
      str_int_def digits10.simps digit_char_def)

theorem tokens_replaced_by_latest_block_witness:
  "length ''BTC'' = 3 \<and> list_all is_upper ''BTC''
   \<and> sublist (''{'' @ ''BTC'' @ ''}'') ''{BTC} or {BTC}''
   \<and> hashes_without_brace (get_latest demo_lib)
   \<and> lookup_trace (get_latest demo_lib) 436254
        [(''BTC'', Inr (436254, ''00ab'')), (''BTC'', Inr (436255, ''00ab''))] 436256
   \<and> ''BTC#436254 00ab or BTC#436254 00ab''
       = expand_tokens
           (answer_text [(''BTC'', Inr (436254, ''00ab'')), (''BTC'', Inr (436255, ''00ab''))])
           ''{BTC} or {BTC}''
   \<and> (\<exists>r. map_of [(''BTC'', Inr (436254, ''00ab'')), (''BTC'', Inr (436255, ''00ab''))] ''BTC''
            = Some (Inr r :: lookup_result)
          \<and> sublist (''BTC'' @ ''#'' @ str_int (fst r) @ '' '' @ snd r)
               ''BTC#436254 00ab or BTC#436254 00ab'')
   \<and> \<not> sublist (''{'' @ ''BTC'' @ ''}'') ''BTC#436254 00ab or BTC#436254 00ab''
   \<and> \<not> contains_token ''BTC#436254 00ab or BTC#436254 00ab''"
proof -
  have h1: "length ''BTC'' = 3" by simp
  have h2: "list_all is_upper ''BTC''" by (simp add: is_upper_def)
  have h3: "sublist (''{'' @ ''BTC'' @ ''}'') ''{BTC} or {BTC}''" by simp
  note h4 = demo_hashes_without_brace
  note th = tokens_replaced_by_latest_block [OF h1 h2 h3 h4, of 436254,
      unfolded demo_substitution prod.case sum.case]
  from th h1 h2 h3 h4 show ?thesis
    by (elim conjE) (intro conjI, assumption+)
qed

section \<open>The input script\<close>

lemma le_bytes_length: "n < 256 ^ k \<Longrightarrow> length (le_bytes n) \<le> k"
proof (induction k arbitrary: n)
  case 0
  then show ?case by (simp add: le_bytes.simps)
next
  case (Suc k)
  show ?case
  proof (cases "n = 0")
    case True
    then show ?thesis by (simp add: le_bytes.simps)
  next
    case False
    from Suc.prems have "n div 256 < 256 ^ k"
      by (simp add: less_mult_imp_div_less mult.commute)
    then have "length (le_bytes (n div 256)) \<le> k" by (rule Suc.IH)
    with False show ?thesis by (simp add: le_bytes.simps [of n])
  qed
qed

lemma bn2vch_length: "length (bn2vch v) \<le> Suc (length (le_bytes (nat \<bar>v\<bar>)))"
  by (auto simp: bn2vch_def Let_def)

lemma bn2vch_short:
  assumes "0 \<le> en" and "en < 2 ^ 32"
  shows "length (bn2vch en) \<le> 5"
proof -
  from assms have "nat \<bar>en\<bar> < 256 ^ 4"
    by simp
  then have "length (le_bytes (nat \<bar>en\<bar>)) \<le> 4"
    by (rule le_bytes_length)
  with bn2vch_length [of en] show ?thesis by simp
qed

lemma utf8_replicate_a: "utf8 (replicate n CHR ''a'') = replicate n 97"
  by (induction n) (simp_all add: utf8_def utf8_char_def)

text \<open>
  Claim C6, as the code has it. The input script is three pushes one after the other: the
  push of the extranonce, the two bytes 01 04 (the push of the one byte 04), and the push of
  the UTF-8 bytes of the payload. An extranonce above 16 and below \<open>2\<^sup>3\<^sup>2\<close>, as every compact
  bits value is, is pushed as its length and its minimal little-endian bytes. The payload
  is pushed behind a single length byte when it is shorter than 76 bytes.
\<close>

theorem scriptSig_three_pushes:
  "build_scriptSig en psz =
     (case coerce_instance (IntOperand en) of
        Inl e \<Rightarrow> Inl e
      | Inr a \<Rightarrow>
          (case encode_op_pushdata (utf8 psz) of
             Inl e \<Rightarrow> Inl e
           | Inr c \<Rightarrow> Inr (a @ [0x01, 0x04] @ c)))
   \<and> (16 < en \<and> en < 2 ^ 32 \<longrightarrow>
        coerce_instance (IntOperand en) = Inr (of_nat (length (bn2vch en)) # bn2vch en))
   \<and> (length (utf8 psz) < 76 \<longrightarrow>
        encode_op_pushdata (utf8 psz) = Inr (of_nat (length (utf8 psz)) # utf8 psz))"
proof (intro conjI impI)
  show "build_scriptSig en psz =
     (case coerce_instance (IntOperand en) of
        Inl e \<Rightarrow> Inl e
      | Inr a \<Rightarrow>
          (case encode_op_pushdata (utf8 psz) of
             Inl e \<Rightarrow> Inl e
           | Inr c \<Rightarrow> Inr (a @ [0x01, 0x04] @ c)))"
    by (simp add: build_scriptSig_def cscript_add_def CScript_def coerce_instance_def
        encode_op_pushdata_def split: sum.splits)
next
  assume en: "16 < en \<and> en < 2 ^ 32"
  then have "length (bn2vch en) \<le> 5"
    by (intro bn2vch_short) simp_all
  with en show "coerce_instance (IntOperand en) = Inr (of_nat (length (bn2vch en)) # bn2vch en)"
    by (simp add: coerce_instance_def encode_op_pushdata_def)
next
  assume "length (utf8 psz) < 76"
  then show "encode_op_pushdata (utf8 psz) = Inr (of_nat (length (utf8 psz)) # utf8 psz)"
    by (simp add: encode_op_pushdata_def)
qed

lemma bn2vch_bits: "bn2vch 0x1f07ffff = [255, 255, 7, 31]"
  by (simp add: bn2vch_def le_bytes.simps)

lemma utf8_Zcash: "utf8 ''Zcash'' = [90, 99, 97, 115, 104]"
  by (simp add: utf8_def utf8_char_def)

theorem scriptSig_three_pushes_witness:
  "(16 :: int) < 0x1f07ffff \<and> (0x1f07ffff :: int) < 2 ^ 32 \<and> length (utf8 ''Zcash'') < 76
   \<and> build_scriptSig 0x1f07ffff ''Zcash''
       = Inr ([4, 255, 255, 7, 31] @ [1, 4] @ [5, 90, 99, 97, 115, 104])"
  using scriptSig_three_pushes [of "0x1f07ffff" "''Zcash''"]
  by (simp add: bn2vch_bits utf8_Zcash)

text \<open>
  Claim C6, as it is stated, fails. For the default bits and the payload \<^verbatim>\<open>Zcash\<close> the
  script has 13 bytes, three more than the four bytes of the extranonce, one byte and the
  five bytes of the payload: the extranonce has a length byte of its own, and two bytes and
  a length byte stand between it and the payload. A payload of 300 bytes has its length in
  two bytes behind the opcode 4d, not in a single byte.
\<close>

lemma scriptSig_bits_Zcash:
  "build_scriptSig 0x1f07ffff ''Zcash'' = Inr [4, 255, 255, 7, 31, 1, 4, 5, 90, 99, 97, 115, 104]"
  by (simp add: script_defs)

lemma le_fixed_2: "le_fixed 2 n = [of_nat (n mod 256), of_nat (n div 256 mod 256)]"
  by (simp add: numeral_2_eq_2)

lemma pushdata_300:
  "encode_op_pushdata (utf8 (replicate 300 CHR ''a''))
     = Inr ([0x4d, 0x2c, 0x01] @ utf8 (replicate 300 CHR ''a''))"
  by (simp add: utf8_replicate_a encode_op_pushdata_def le_fixed_2)

theorem scriptSig_not_encoding_byte_payload:
  "build_scriptSig 0x1f07ffff ''Zcash'' = Inr [4, 255, 255, 7, 31, 1, 4, 5, 90, 99, 97, 115, 104]
   \<and> bn2vch 0x1f07ffff = [255, 255, 7, 31]
   \<and> utf8 ''Zcash'' = [90, 99, 97, 115, 104]
   \<and> length [4, 255, 255, 7, 31, 1, 4, 5, 90, 99, 97, 115, 104 :: byte]
       \<noteq> length (bn2vch 0x1f07ffff) + 1 + length (utf8 ''Zcash'')
   \<and> encode_op_pushdata (utf8 (replicate 300 CHR ''a''))
       = Inr ([0x4d, 0x2c, 0x01] @ utf8 (replicate 300 CHR ''a''))"
  unfolding scriptSig_bits_Zcash bn2vch_bits utf8_Zcash pushdata_300 by simp

section \<open>The header and the block explorer\<close>

lemma build_EquihashInputHeader_lookups:
  "snd (snd (build_EquihashInputHeader lib a w)) = snd (snd (resolve_pszTimestamp lib a w))"
  by (simp add: build_EquihashInputHeader_def split: prod.splits sum.splits)

text \<open>With an override that is not empty the header is the same whatever the block explorer
  and the state of the world are, and the block explorer is not called.\<close>

lemma header_fixed_by_override:
  assumes "pszTimestamp a = Some p" and "p \<noteq> []"
  shows "fst (build_EquihashInputHeader (lib\<lparr>get_latest := gl\<rparr>) a w')
           = fst (build_EquihashInputHeader lib a w)"
    and "snd (snd (build_EquihashInputHeader lib a w)) = []"
  using assms
  by (simp_all add: build_EquihashInputHeader_def resolve_pszTimestamp_def
      split: prod.splits sum.splits)

lemma demo_header_at_height:
  "fst (build_EquihashInputHeader demo_lib
          (defaults demo_lib []\<lparr>pszTimestamp := Some '''', coinname := ''Z'',
             timestamp := ''{BTC}''\<rparr>) h)
   = (case build_scriptSig 0x1f07ffff (''Z'' @ hexlify (utf8 (''BTC#'' @ str_int h @ '' 00ab''))) of
        Inl e \<Rightarrow> Inl e
      | Inr s \<Rightarrow> Inr \<lparr>nTime = 1477641360, nBits = 0x1f07ffff, nNonce = replicate 32 0,
                      hashMerkleRoot = s\<rparr>)"
  by (simp add: build_EquihashInputHeader_def resolve_pszTimestamp_def resolve_extranonce_def
      build_pszTimestamp_def defaults_def demo_lib_def is_upper_def str_replace_def
      get_latest_block_str_def build_scriptPubKey_def cscript_add_def CScript_def
      coerce_instance_def encode_op_pushdata_def
      split: sum.splits)

lemma demo_payload_1: "''Z'' @ hexlify (utf8 (''BTC#'' @ str_int 1 @ '' 00ab'')) = ''Z42544323312030306162''"
  by (simp add: utf8_def utf8_char_def str_int_def digits10.simps digit_char_def hex_char_def)

lemma demo_payload_2: "''Z'' @ hexlify (utf8 (''BTC#'' @ str_int 2 @ '' 00ab'')) = ''Z42544323322030306162''"
  by (simp add: utf8_def utf8_char_def str_int_def digits10.simps digit_char_def hex_char_def)

lemma demo_header_1:
  "fst (build_EquihashInputHeader demo_lib
          (defaults demo_lib []\<lparr>pszTimestamp := Some '''', coinname := ''Z'',
             timestamp := ''{BTC}''\<rparr>) 1)
   = Inr \<lparr>nTime = 1477641360, nBits = 0x1f07ffff, nNonce = replicate 32 0,
          hashMerkleRoot = [4, 255, 255, 7, 31, 1, 4, 21] @ utf8 ''Z42544323312030306162''\<rparr>"
  unfolding demo_header_at_height demo_payload_1 by (simp add: script_defs)

lemma demo_header_2:
  "fst (build_EquihashInputHeader demo_lib
          (defaults demo_lib []\<lparr>pszTimestamp := Some '''', coinname := ''Z'',
             timestamp := ''{BTC}''\<rparr>) 2)
   = Inr \<lparr>nTime = 1477641360, nBits = 0x1f07ffff, nNonce = replicate 32 0,
          hashMerkleRoot = [4, 255, 255, 7, 31, 1, 4, 21] @ utf8 ''Z42544323322030306162''\<rparr>"
  unfolding demo_header_at_height demo_payload_2 by (simp add: script_defs)

text \<open>
  Claim C7. Two runs with the same arguments, an override of the payload among them, should
  build the same header. With the empty override the program calls \<^verbatim>\<open>build_pszTimestamp\<close>
  (claim C3), so with the template \<^verbatim>\<open>{BTC}\<close> it asks the block explorer, and the header
  depends on the answer: a run when the latest block is block 1 and a run when it is block 2
  build different merkle roots. (The two hashes are stand-ins that return their input.)
\<close>

theorem empty_override_header_depends_on_lookup:
  "map fst (snd (snd (build_EquihashInputHeader lib
       (a\<lparr>pszTimestamp := Some '''', timestamp := ''{BTC}''\<rparr>) w))) = [''BTC'']
   \<and> fst (build_EquihashInputHeader demo_lib
          (defaults demo_lib []\<lparr>pszTimestamp := Some '''', coinname := ''Z'',
             timestamp := ''{BTC}''\<rparr>) 1)
     \<noteq> fst (build_EquihashInputHeader demo_lib
          (defaults demo_lib []\<lparr>pszTimestamp := Some '''', coinname := ''Z'',
             timestamp := ''{BTC}''\<rparr>) 2)"
  unfolding demo_header_1 demo_header_2 build_EquihashInputHeader_lookups
  by (simp add: resolve_pszTimestamp_def build_pszTimestamp_BTC_lookups utf8_def utf8_char_def)

section \<open>The argument parser\<close>

lemma unhexlify_error: "unhexlify s = Inl e \<Longrightarrow> e = BinasciiError"
proof (induction s rule: induct_list012)
  case 1
  then show ?case by simp
next
  case (2 c)
  then show ?case by simp
next
  case (3 a b cs)
  then show ?case
    by (auto split: option.splits sum.splits)
qed

lemma lbytes32_events: "ev \<in> set (snd (lbytes32 s)) \<Longrightarrow> \<exists>m. ev = Warn m"
  by (auto simp: lbytes32_def split: if_splits)

lemma store_events: "ev \<in> set (fst (store lib d v a)) \<Longrightarrow> \<exists>m. ev = Warn m"
proof (cases d)
  case Nonce
  assume "ev \<in> set (fst (store lib d v a))"
  with Nonce have "ev \<in> set (snd (lbytes32 v))"
    by (auto split: prod.splits sum.splits)
  then show ?thesis by (rule lbytes32_events)
qed (auto simp: usage_def split: option.splits sum.splits if_splits)

lemma store_error: "snd (store lib d v a) = Inl e \<Longrightarrow> \<exists>opt. e = UsageError opt"
  by (cases d) (auto simp: usage_def split: option.splits sum.splits prod.splits if_splits)

lemma store_solver_type:
  assumes "snd (store lib d v a) = Inr a'"
    and "solver_type a = ''tromp'' \<or> solver_type a = ''silentarmy''"
  shows "solver_type a' = ''tromp'' \<or> solver_type a' = ''silentarmy''"
  using assms
  by (cases d) (auto simp: usage_def split: option.splits sum.splits prod.splits if_splits)

lemma store_all_events: "ev \<in> set (fst (store_all lib argv a)) \<Longrightarrow> \<exists>m. ev = Warn m"
proof (induction argv arbitrary: a)
  case Nil
  then show ?case by simp
next
  case (Cons o1 argv)
  obtain d v where o1: "o1 = (d, v)" by (cases o1)
  obtain evs r where st: "store lib d v a = (evs, r)" by (cases "store lib d v a")
  show ?case
  proof (cases r)
    case (Inl e)
    with Cons.prems o1 st have "ev \<in> set (fst (store lib d v a))" by simp
    then show ?thesis by (rule store_events)
  next
    case (Inr a')
    with Cons.prems o1 st
    have "ev \<in> set (fst (store lib d v a)) \<or> ev \<in> set (fst (store_all lib argv a'))"
      by (auto split: prod.splits)
    then show ?thesis
      using store_events Cons.IH by blast
  qed
qed

lemma store_all_error: "snd (store_all lib argv a) = Inl e \<Longrightarrow> \<exists>opt. e = UsageError opt"
proof (induction argv arbitrary: a)
  case Nil
  then show ?case by simp
next
  case (Cons o1 argv)
  obtain d v where o1: "o1 = (d, v)" by (cases o1)
  obtain evs r where st: "store lib d v a = (evs, r)" by (cases "store lib d v a")
  show ?case
  proof (cases r)
    case (Inl e')
    with Cons.prems o1 st have "snd (store lib d v a) = Inl e" by simp
    then show ?thesis by (rule store_error)
  next
    case (Inr a')
    with Cons.prems o1 st have "snd (store_all lib argv a') = Inl e"
      by (auto split: prod.splits)
    then show ?thesis by (rule Cons.IH)
  qed
qed

lemma store_all_solver_type:
  "snd (store_all lib argv a) = Inr a' \<Longrightarrow>
     solver_type a = ''tromp'' \<or> solver_type a = ''silentarmy'' \<Longrightarrow>
     solver_type a' = ''tromp'' \<or> solver_type a' = ''silentarmy''"
proof (induction argv arbitrary: a)
  case Nil
  then show ?case by simp
next
  case (Cons o1 argv)
  obtain d v where o1: "o1 = (d, v)" by (cases o1)
  obtain evs r where st: "store lib d v a = (evs, r)" by (cases "store lib d v a")
  show ?case
  proof (cases r)
    case (Inl e)
    with Cons.prems(1) o1 st show ?thesis by simp
  next
    case (Inr a1)
    with st have "snd (store lib d v a) = Inr a1" by simp
    then have a1: "solver_type a1 = ''tromp'' \<or> solver_type a1 = ''silentarmy''"
      using Cons.prems(2) by (rule store_solver_type)
    from Cons.prems(1) o1 st Inr have "snd (store_all lib argv a1) = Inr a'"
      by (auto split: prod.splits)
    then show ?thesis using a1 by (rule Cons.IH)
  qed
qed

lemma argparse_events: "ev \<in> set (fst (argparse lib argv)) \<Longrightarrow> \<exists>m. ev = Warn m"
  by (auto simp: argparse_def split: sum.splits dest: store_all_events)

lemma argparse_error:
  "snd (argparse lib argv) = Inl e \<Longrightarrow> e = BinasciiError \<or> (\<exists>opt. e = UsageError opt)"
  by (auto simp: argparse_def x_def split: sum.splits dest: store_all_error unhexlify_error)

lemma argparse_solver_type:
  assumes "snd (argparse lib argv) = Inr a"
  shows "solver_type a = ''tromp'' \<or> solver_type a = ''silentarmy''"
proof -
  from assms obtain pk where "snd (store_all lib argv (defaults lib pk)) = Inr a"
    by (auto simp: argparse_def split: sum.splits)
  then show ?thesis
    by (rule store_all_solver_type) (simp add: defaults_def)
qed

lemma parse_args_of_argparse:
  assumes "argparse lib argv = (evs, Inr a)"
  shows "parse_args lib argv = (evs @ [SelectCoreParams (chain_arg a)], check_silentarmy a)"
proof -
  from assms have "snd (argparse lib argv) = Inr a" by simp
  then have "solver_type a \<noteq> []"
    using argparse_solver_type by fastforce
  then have "infer_solver_type lib a = Inr a"
    by (simp add: infer_solver_type_def)
  with assms show ?thesis
    by (simp add: parse_args_def)
qed

lemma parse_args_events:
  assumes "ev \<in> set (fst (parse_args lib argv))"
  shows "(\<exists>m. ev = Warn m) \<or> (\<exists>c. ev = SelectCoreParams c)"
proof (cases "argparse lib argv")
  case (Pair evs r)
  then have "fst (argparse lib argv) = evs" by simp
  with assms Pair argparse_events [of _ lib argv] show ?thesis
    by (cases r) (auto simp: parse_args_def)
qed

lemma default_pubkey:
  obtains pk where "x default_pubkey_hex = Inr pk" and "length pk = 65"
proof -
  have "hex_string default_pubkey_hex"
    by (simp add: default_pubkey_hex_def hex_string_def hex_val_def)
  moreover have "even (length default_pubkey_hex)"
    by (simp add: default_pubkey_hex_def)
  ultimately obtain pk where "unhexlify default_pubkey_hex = Inr pk"
    and "2 * length pk = length default_pubkey_hex"
    using unhexlify_hex_string by blast
  then have "x default_pubkey_hex = Inr pk" and "length pk = 65"
    by (simp_all add: x_def default_pubkey_hex_def)
  then show ?thesis by (rule that)
qed

section \<open>Silentarmy and regtest\<close>

text \<open>
  Claim C9. When the parsed arguments select the solver type silentarmy and the chain
  regtest, \<^verbatim>\<open>parse_args\<close> ends with the fatal error of the silentarmy check, and so does
  \<^verbatim>\<open>main\<close>: after the events of the argument parser and \<^verbatim>\<open>SelectCoreParams\<close> nothing
  happens; no solver is constructed and none is run.
\<close>

theorem silentarmy_regtest_is_fatal:
  assumes "argparse lib argv = (evs, Inr a)"
    and "solver_type a = ''silentarmy''" and "chain_arg a = ''regtest''"
  shows "parse_args lib argv =
           (evs @ [SelectCoreParams ''regtest''],
            Inl (FatalExit ''Silentarmy doesn't support regtest parameters N,K=48,5. Get Tromp's equihash solver.''))
         \<and> main lib argv w =
           (evs @ [SelectCoreParams ''regtest''],
            Inl (FatalExit ''Silentarmy doesn't support regtest parameters N,K=48,5. Get Tromp's equihash solver.''))
         \<and> list_all (\<lambda>ev. \<not> solver_event ev) (fst (main lib argv w))"
proof -
  have p: "parse_args lib argv =
      (evs @ [SelectCoreParams ''regtest''],
       Inl (FatalExit ''Silentarmy doesn't support regtest parameters N,K=48,5. Get Tromp's equihash solver.''))"
    using parse_args_of_argparse [OF assms(1)] assms(2,3)
    by (simp add: check_silentarmy_def)
  then have m: "main lib argv w =
      (evs @ [SelectCoreParams ''regtest''],
       Inl (FatalExit ''Silentarmy doesn't support regtest parameters N,K=48,5. Get Tromp's equihash solver.''))"
    by (simp add: main_def)
  have "\<not> solver_event ev" if "ev \<in> set evs" for ev
  proof -
    from that assms(1) have "ev \<in> set (fst (argparse lib argv))" by simp
    then obtain msg where "ev = Warn msg" using argparse_events by blast
    then show ?thesis by (simp add: solver_event_def)
  qed
  then have "list_all (\<lambda>ev. \<not> solver_event ev) (evs @ [SelectCoreParams ''regtest''])"
    by (simp add: list_all_iff solver_event_def)
  with p m show ?thesis by simp
qed

theorem silentarmy_regtest_is_fatal_witness:
  "main demo_lib [(SolverType, ''silentarmy''), (Chain, ''regtest'')] 0 =
     ([SelectCoreParams ''regtest''],
      Inl (FatalExit ''Silentarmy doesn't support regtest parameters N,K=48,5. Get Tromp's equihash solver.''))"
proof -
  obtain pk where pk: "x default_pubkey_hex = Inr pk"
    by (rule default_pubkey)
  let ?a = "defaults demo_lib pk\<lparr>solver_type := ''silentarmy'', chain_arg := ''regtest''\<rparr>"
  have h1: "argparse demo_lib [(SolverType, ''silentarmy''), (Chain, ''regtest'')] = ([], Inr ?a)"
    by (simp add: argparse_def pk)
  have h2: "solver_type ?a = ''silentarmy''" by simp
  have h3: "chain_arg ?a = ''regtest''" by simp
  from silentarmy_regtest_is_fatal [OF h1 h2 h3, of 0] show ?thesis by simp
qed

section \<open>The solver type\<close>

text \<open>
  Claim C10. The solver type that the argument parser returns is never empty, so the branch
  that infers it is not entered and leaves the arguments as they are, and \<^verbatim>\<open>parse_args\<close>
  never ends with the fatal error of that branch. When \<^verbatim>\<open>parse_args\<close> returns, the solver type
  is \<^verbatim>\<open>tromp\<close> or \<^verbatim>\<open>silentarmy\<close>, and \<^verbatim>\<open>main\<close> binds a solver for every header.
\<close>

theorem solver_type_is_a_choice:
  "snd (parse_args lib argv)
     \<noteq> Inl (FatalExit ''Couldn't infer solver type from binary name and type not set with -S'')
   \<and> (\<forall>a. snd (argparse lib argv) = Inr a \<longrightarrow>
          solver_type a \<noteq> [] \<and> infer_solver_type lib a = Inr a)
   \<and> (\<forall>a. snd (parse_args lib argv) = Inr a \<longrightarrow>
          (solver_type a = ''tromp'' \<or> solver_type a = ''silentarmy'')
          \<and> (\<forall>eh. bind_solver a eh \<noteq> None))"
proof (cases "argparse lib argv")
  case (Pair evs r)
  show ?thesis
  proof (cases r)
    case (Inl e)
    with Pair have p: "snd (parse_args lib argv) = Inl e"
      by (simp add: parse_args_def)
    from Pair Inl have "snd (argparse lib argv) = Inl e" by simp
    then have "e = BinasciiError \<or> (\<exists>opt. e = UsageError opt)"
      by (rule argparse_error)
    with p Pair Inl show ?thesis by auto
  next
    case (Inr a)
    with Pair have ap: "argparse lib argv = (evs, Inr a)" by simp
    then have "snd (argparse lib argv) = Inr a" by simp
    then have st: "solver_type a = ''tromp'' \<or> solver_type a = ''silentarmy''"
      by (rule argparse_solver_type)
    then have ne: "solver_type a \<noteq> []" by auto
    then have inf: "infer_solver_type lib a = Inr a"
      by (simp add: infer_solver_type_def)
    have p: "snd (parse_args lib argv) = check_silentarmy a"
      using parse_args_of_argparse [OF ap] by simp
    have 1: "snd (parse_args lib argv)
        \<noteq> Inl (FatalExit ''Couldn't infer solver type from binary name and type not set with -S'')"
      unfolding p by (simp add: check_silentarmy_def)
    have 3: "(solver_type a' = ''tromp'' \<or> solver_type a' = ''silentarmy'')
        \<and> (\<forall>eh. bind_solver a' eh \<noteq> None)" if "snd (parse_args lib argv) = Inr a'" for a'
    proof -
      from that p have "a' = a"
        by (simp add: check_silentarmy_def split: if_splits)
      with st show ?thesis by (auto simp: bind_solver_def)
    qed
    from 1 3 ap ne inf show ?thesis by simp
  qed
qed

theorem solver_type_is_a_choice_witness:
  "\<not> isl (snd (parse_args demo_lib [(SolverType, ''silentarmy'')]))
   \<and> solver_type (projr (snd (parse_args demo_lib [(SolverType, ''silentarmy'')]))) = ''silentarmy''
   \<and> solver_type (projr (snd (argparse demo_lib [(SolverType, ''silentarmy'')]))) \<noteq> []"
proof -
  obtain pk where pk: "x default_pubkey_hex = Inr pk"
    by (rule default_pubkey)
  let ?a = "defaults demo_lib pk\<lparr>solver_type := ''silentarmy''\<rparr>"
  have ap: "argparse demo_lib [(SolverType, ''silentarmy'')] = ([], Inr ?a)"
    by (simp add: argparse_def pk)
  have pa: "snd (parse_args demo_lib [(SolverType, ''silentarmy'')]) = Inr ?a"
    by (simp add: parse_args_def ap infer_solver_type_def check_silentarmy_def defaults_def)
  from solver_type_is_a_choice [of demo_lib "[(SolverType, ''silentarmy'')]"] ap pa
  show ?thesis by simp
qed

section \<open>The try statement of \<^verbatim>\<open>main\<close>\<close>

lemma finally_close_last: "last (fst (finally_close c)) = LoopClose"
  by (cases c) (simp add: finally_close_def)

lemma main_try_statement:
  assumes "parse_args lib argv = (evs, Inr a)"
    and "build_EquihashInputHeader lib a w = (Inr eh, w', lg)"
  shows "main lib argv w =
     (evs @ solver_events (bind_solver a eh) @ acquire_loop lib
        @ fst (finally_close (except_SolverException (try_body lib w' eh (bind_solver a eh)))),
      snd (finally_close (except_SolverException (try_body lib w' eh (bind_solver a eh)))))"
  using assms by (simp add: main_def split: prod.splits)

lemma try_SolverException:
  assumes "solver_run lib w' so = Inl (SolverException msg)"
  shows "finally_close (except_SolverException (try_body lib w' eh (Some so)))
     = ([SolverRun, Warn (msg @ newline @ ''Exiting.''), LoopClose], Inr ())"
  using assms by (simp add: try_body_def except_SolverException_def finally_close_def)

lemma try_solution:
  assumes "solver_run lib w' so = Inr (solution, n)" and "GetHash lib eh solution n = Inr h"
  shows "finally_close (except_SolverException (try_body lib w' eh (Some so)))
     = ([SolverRun,
         Print (''Solution found!'' @ newline @ ''Header Hash: '' @ b2lx h @ newline
                @ ''Nonce: '' @ b2lx n @ newline @ b2x solution),
         LoopClose], Inr ())"
  using assms by (simp add: try_body_def except_SolverException_def finally_close_def)

text \<open>
  Claim C8. Let \<^verbatim>\<open>main\<close> reach its \<^verbatim>\<open>try\<close> statement: the arguments are parsed and the
  header is built. Then the last thing \<^verbatim>\<open>main\<close> does is to close the event loop, whatever
  the solver does. When the run of the solver raises \<^verbatim>\<open>SolverException\<close>, \<^verbatim>\<open>main\<close> runs the
  solver, warns with the message of the exception, closes the loop and returns; it prints
  nothing. When the solver returns a solution, \<^verbatim>\<open>main\<close> prints it and closes the loop.
\<close>

theorem main_closes_loop:
  assumes "parse_args lib argv = (evs, Inr a)"
    and "build_EquihashInputHeader lib a w = (Inr eh, w', lg)"
  shows "last (fst (main lib argv w)) = LoopClose
    \<and> (\<forall>so msg. bind_solver a eh = Some so \<longrightarrow> solver_run lib w' so = Inl (SolverException msg) \<longrightarrow>
          main lib argv w =
            (evs @ solver_events (Some so) @ acquire_loop lib
               @ [SolverRun, Warn (msg @ newline @ ''Exiting.''), LoopClose], Inr ())
          \<and> list_all (\<lambda>ev. \<forall>s. ev \<noteq> Print s) (fst (main lib argv w)))
    \<and> (\<forall>so solution n h. bind_solver a eh = Some so \<longrightarrow> solver_run lib w' so = Inr (solution, n)
          \<longrightarrow> GetHash lib eh solution n = Inr h \<longrightarrow>
          main lib argv w =
            (evs @ solver_events (Some so) @ acquire_loop lib
               @ [SolverRun,
                  Print (''Solution found!'' @ newline @ ''Header Hash: '' @ b2lx h @ newline
                         @ ''Nonce: '' @ b2lx n @ newline @ b2x solution),
                  LoopClose], Inr ()))"
proof (intro conjI allI impI)
  note m = main_try_statement [OF assms]
  let ?c = "finally_close (except_SolverException (try_body lib w' eh (bind_solver a eh)))"
  have "fst ?c \<noteq> []"
    by (cases "except_SolverException (try_body lib w' eh (bind_solver a eh))")
      (simp add: finally_close_def)
  then have "last (fst (main lib argv w)) = last (fst ?c)"
    unfolding m by simp
  then show "last (fst (main lib argv w)) = LoopClose"
    by (simp only: finally_close_last)
next
  fix so msg
  assume so: "bind_solver a eh = Some so"
    and raise: "solver_run lib w' so = Inl (SolverException msg)"
  show "main lib argv w =
      (evs @ solver_events (Some so) @ acquire_loop lib
         @ [SolverRun, Warn (msg @ newline @ ''Exiting.''), LoopClose], Inr ())"
    unfolding main_try_statement [OF assms] so try_SolverException [OF raise] by simp
  have "\<forall>s. ev \<noteq> Print s" if "ev \<in> set evs" for ev
  proof -
    from that assms(1) have "ev \<in> set (fst (parse_args lib argv))" by simp
    then show ?thesis using parse_args_events by blast
  qed
  then show "list_all (\<lambda>ev. \<forall>s. ev \<noteq> Print s) (fst (main lib argv w))"
    unfolding main_try_statement [OF assms] so try_SolverException [OF raise]
    by (auto simp: list_all_iff solver_events_def acquire_loop_def split: solver_obj.splits)
next
  fix so solution n h
  assume so: "bind_solver a eh = Some so"
    and "solver_run lib w' so = Inr (solution, n)" and "GetHash lib eh solution n = Inr h"
  then show "main lib argv w =
      (evs @ solver_events (Some so) @ acquire_loop lib
         @ [SolverRun,
            Print (''Solution found!'' @ newline @ ''Header Hash: '' @ b2lx h @ newline
                   @ ''Nonce: '' @ b2lx n @ newline @ b2x solution),
            LoopClose], Inr ())"
    unfolding main_try_statement [OF assms] by (simp add: try_solution)
qed

theorem main_closes_loop_witness:
  "main demo_lib [(PszTimestamp, ''x'')] 0 =
     ([SelectCoreParams ''mainnet'', NewTrompSolver, GetEventLoop, SolverRun,
       Warn (''no solution'' @ newline @ ''Exiting.''), LoopClose], Inr ())
   \<and> last (fst (main demo_lib [(PszTimestamp, ''x'')] 0)) = LoopClose"
proof -
  obtain pk where pk: "x default_pubkey_hex = Inr pk" and len: "length pk = 65"
    by (rule default_pubkey)
  let ?a = "defaults demo_lib pk\<lparr>pszTimestamp := Some ''x''\<rparr>"
  let ?eh = "\<lparr>nTime = 1477641360, nBits = 0x1f07ffff, nNonce = replicate 32 0,
              hashMerkleRoot = [4, 255, 255, 7, 31, 1, 4, 1, 120]\<rparr>"
  let ?so = "TrompSolver [''../../equihash/eq14451''] ?eh 1 (replicate 32 0) 1"
  have ap: "argparse demo_lib [(PszTimestamp, ''x'')] = ([], Inr ?a)"
    by (simp add: argparse_def pk)
  have h1: "parse_args demo_lib [(PszTimestamp, ''x'')] = ([SelectCoreParams ''mainnet''], Inr ?a)"
    by (simp add: parse_args_of_argparse [OF ap] check_silentarmy_def defaults_def)
  have h2: "build_EquihashInputHeader demo_lib ?a 0 = (Inr ?eh, 0, [])"
    using len
    by (simp add: build_EquihashInputHeader_def resolve_pszTimestamp_def resolve_extranonce_def
        defaults_def demo_lib_def scriptSig_bits_x build_scriptPubKey_def cscript_add_def
        CScript_def coerce_instance_def encode_op_pushdata_def)
  have h3: "bind_solver ?a ?eh = Some ?so"
    by (simp add: bind_solver_def defaults_def demo_lib_def)
  have h4: "solver_run demo_lib 0 ?so = Inl (SolverException ''no solution'')"
    by (simp add: demo_lib_def)
  from main_closes_loop [OF h1 h2] h3 h4
  have "last (fst (main demo_lib [(PszTimestamp, ''x'')] 0)) = LoopClose"
    and "main demo_lib [(PszTimestamp, ''x'')] 0 =
      ([SelectCoreParams ''mainnet''] @ solver_events (Some ?so) @ acquire_loop demo_lib
         @ [SolverRun, Warn (''no solution'' @ newline @ ''Exiting.''), LoopClose], Inr ())"
    by blast+
  then show ?thesis
    by (simp add: solver_events_def acquire_loop_def demo_lib_def)
qed

end
